theory Spec2Isabelle
  imports Complex_Main "HOL-Library.Word" "HOL-Library.Log_Nat"
begin

section \<open>Strings and the data model (src/types.ts)\<close>

text \<open>
  A JavaScript string is a sequence of UTF-16 code units: \<open>s.length\<close> counts code units
  and \<open>s[i]\<close> reads one. Source literals are ASCII and are written through \<open>js\<close>.
\<close>

type_synonym jschar = "16 word"
type_synonym jsstring = "jschar list"

definition js :: "string \<Rightarrow> jsstring" where
  "js = map of_char"

datatype EntityType =
  PERSON | LOCATION | EMAIL_ADDRESS | IP_ADDRESS | PHONE_NUMBER | CREDIT_CARD | DATE_TIME | URL

text \<open>The string value of each member of the enum, as \<open>`[${entity.type}]`\<close> prints it.\<close>

fun typeName :: "EntityType \<Rightarrow> jsstring" where
  "typeName PERSON = js ''PERSON''"
| "typeName LOCATION = js ''LOCATION''"
| "typeName EMAIL_ADDRESS = js ''EMAIL_ADDRESS''"
| "typeName IP_ADDRESS = js ''IP_ADDRESS''"
| "typeName PHONE_NUMBER = js ''PHONE_NUMBER''"
| "typeName CREDIT_CARD = js ''CREDIT_CARD''"
| "typeName DATE_TIME = js ''DATE_TIME''"
| "typeName URL = js ''URL''"

text \<open>
  \<open>DetectedEntity\<close>: the fields \<open>text\<close> and \<open>type\<close> are \<open>text_of\<close> and \<open>type_of\<close>;
  the optional indices are \<open>None\<close> where the source has \<open>undefined\<close>.
\<close>

record DetectedEntity =
  text_of :: jsstring
  type_of :: EntityType
  startIndex :: "int option"
  endIndex :: "int option"

datatype RedactionMode = REMOVE | MASK

datatype ChunkType = match | mismatch_actual | mismatch_expected

record DiffChunk =
  value_of :: jsstring
  chunk_type :: ChunkType


section \<open>Edit distance (calculateLevenshteinDistance, calculateSimilarity)\<close>

text \<open>\<open>track[j][i] = v\<close> on the two-dimensional table.\<close>

definition setCell :: "nat list list \<Rightarrow> nat \<Rightarrow> nat \<Rightarrow> nat \<Rightarrow> nat list list" where
  "setCell track j i v = track[j := (track ! j)[i := v]]"

text \<open>
  A table of \<open>rows + 1\<close> rows and \<open>cols + 1\<close> columns whose cells in the region
  \<open>R\<close> (row, column) hold the value \<open>f\<close> gives for them. Both dynamic-programming
  tables of the source are filled cell by cell; this is what is known of a table while
  it is being filled.
\<close>

definition tableHolds ::
  "nat \<Rightarrow> nat \<Rightarrow> (nat \<Rightarrow> nat \<Rightarrow> nat) \<Rightarrow> (nat \<Rightarrow> nat \<Rightarrow> bool) \<Rightarrow> nat list list \<Rightarrow> bool" where
  "tableHolds rows cols f R track \<longleftrightarrow>
     length track = rows + 1 \<and>
     (\<forall>r \<le> rows. length (track ! r) = cols + 1) \<and>
     (\<forall>r \<le> rows. \<forall>c \<le> cols. R r c \<longrightarrow> track ! r ! c = f r c)"

text \<open>The body of the inner loop at row \<open>j\<close>, column \<open>i\<close>.\<close>

definition levCell :: "jsstring \<Rightarrow> jsstring \<Rightarrow> nat \<Rightarrow> nat \<Rightarrow> nat list list \<Rightarrow> nat list list" where
  "levCell s1 s2 j i track =
     (let indicator = (if s1 ! (i - 1) = s2 ! (j - 1) then 0 else 1)
      in setCell track j i
           (min (min (track ! j ! (i - 1) + 1)
                     (track ! (j - 1) ! i + 1))
                (track ! (j - 1) ! (i - 1) + indicator)))"

text \<open>
  The table is filled with \<open>null\<close> first; every cell is written before it is read
  (and \<open>null\<close> counts as 0 in JavaScript arithmetic), so the fill value is 0 here.
  The three \<open>for\<close> loops run over \<open>0..s1.length\<close>, \<open>0..s2.length\<close> and the
  rows \<open>1..s2.length\<close> with columns \<open>1..s1.length\<close>.
\<close>

definition calculateLevenshteinDistance :: "jsstring \<Rightarrow> jsstring \<Rightarrow> nat" where
  "calculateLevenshteinDistance s1 s2 =
     (let track0 = replicate (length s2 + 1) (replicate (length s1 + 1) 0);
          track1 = fold (\<lambda>i track. setCell track 0 i i) [0..<length s1 + 1] track0;
          track2 = fold (\<lambda>j track. setCell track j 0 j) [0..<length s2 + 1] track1;
          track3 = fold (\<lambda>j track. fold (levCell s1 s2 j) [1..<length s1 + 1] track)
                     [1..<length s2 + 1] track2
      in track3 ! length s2 ! length s1)"










text \<open>
  The number of Unicode code points of a string, as the string iterator of the language
  counts them: a high surrogate followed by a low surrogate is one code point, every
  other code unit is one of its own.
\<close>

definition isHighSurrogate :: "jschar \<Rightarrow> bool" where
  "isHighSurrogate c \<longleftrightarrow> 0xD800 \<le> c \<and> c \<le> 0xDBFF"

definition isLowSurrogate :: "jschar \<Rightarrow> bool" where
  "isLowSurrogate c \<longleftrightarrow> 0xDC00 \<le> c \<and> c \<le> 0xDFFF"

fun codePointCount :: "jsstring \<Rightarrow> nat" where
  "codePointCount [] = 0"
| "codePointCount [c] = 1"
| "codePointCount (c # d # cs) =
     (if isHighSurrogate c \<and> isLowSurrogate d then 1 + codePointCount cs
      else 1 + codePointCount (d # cs))"

text \<open>
  The value the table holds at row \<open>j\<close>, column \<open>i\<close> once it is filled: the edit
  distance of the first \<open>i\<close> units of \<open>s1\<close> and the first \<open>j\<close> units of \<open>s2\<close>.
\<close>

fun lev :: "jsstring \<Rightarrow> jsstring \<Rightarrow> nat \<Rightarrow> nat \<Rightarrow> nat" where
  "lev s1 s2 0 j = j"
| "lev s1 s2 (Suc i) 0 = Suc i"
| "lev s1 s2 (Suc i) (Suc j) =
     min (min (lev s1 s2 i (Suc j) + 1) (lev s1 s2 (Suc i) j + 1))
         (lev s1 s2 i j + (if s1 ! i = s2 ! j then 0 else 1))"


section \<open>Merging entity lists (mergeEntities)\<close>

text \<open>
  \<open>aiTexts\<close> is the set of the texts of the first list; \<open>forEach\<close> over the second
  list pushes onto \<open>merged\<close>.
\<close>

definition mergeEntities :: "DetectedEntity list \<Rightarrow> DetectedEntity list \<Rightarrow> DetectedEntity list" where
  "mergeEntities aiEntities regexEntities =
     (let merged = aiEntities;
          aiTexts = set (map text_of aiEntities)
      in fold (\<lambda>re merged. if text_of re \<notin> aiTexts then merged @ [re] else merged)
           regexEntities merged)"


section \<open>String built-ins used by the source\<close>

text \<open>\<open>s.substring(a, b)\<close> for \<open>a \<le> b\<close>.\<close>

definition substring :: "jsstring \<Rightarrow> nat \<Rightarrow> nat \<Rightarrow> jsstring" where
  "substring s a b = take (b - a) (drop a s)"

text \<open>
  \<open>s.indexOf(searchString, position)\<close>: the position is clamped to \<open>0..s.length\<close>;
  the result is the least index from there on at which \<open>searchString\<close> occurs, and
  \<open>-1\<close> when there is none. The empty string occurs at every index up to
  \<open>s.length\<close>.
\<close>

definition indexOf :: "jsstring \<Rightarrow> jsstring \<Rightarrow> int \<Rightarrow> int" where
  "indexOf s searchString position =
     (let len = length s;
          start = nat (min (max position 0) (int len))
      in case find (\<lambda>k. take (length searchString) (drop k s) = searchString)
                [start..<len + 1] of
           None \<Rightarrow> - 1
         | Some k \<Rightarrow> int k)"

text \<open>
  White space and line terminators of the language: what \<open>trim\<close> strips and what
  \<open>\s\<close> matches.
\<close>

definition isWhiteSpace :: "jschar \<Rightarrow> bool" where
  "isWhiteSpace c \<longleftrightarrow>
     c \<in> {0x09, 0x0A, 0x0B, 0x0C, 0x0D, 0x20, 0xA0, 0x1680, 0x2028, 0x2029,
          0x202F, 0x205F, 0x3000, 0xFEFF}
     \<or> (0x2000 \<le> c \<and> c \<le> 0x200A)"

definition trim :: "jsstring \<Rightarrow> jsstring" where
  "trim s = rev (dropWhile isWhiteSpace (rev (dropWhile isWhiteSpace s)))"

text \<open>\<open>\w\<close>: ASCII letters, digits and the underscore.\<close>

definition isDigit :: "jschar \<Rightarrow> bool" where
  "isDigit c \<longleftrightarrow> 0x30 \<le> c \<and> c \<le> 0x39"

definition isAlpha :: "jschar \<Rightarrow> bool" where
  "isAlpha c \<longleftrightarrow> (0x41 \<le> c \<and> c \<le> 0x5A) \<or> (0x61 \<le> c \<and> c \<le> 0x7A)"

definition isWordChar :: "jschar \<Rightarrow> bool" where
  "isWordChar c \<longleftrightarrow> isAlpha c \<or> isDigit c \<or> c = 0x5F"

text \<open>A class given by the list of its members, as in \<open>[.,!?;:]\<close>.\<close>

definition oneOf :: "string \<Rightarrow> jschar \<Rightarrow> bool" where
  "oneOf cs c \<longleftrightarrow> c \<in> set (js cs)"


section \<open>Regular expressions\<close>

text \<open>
  The patterns of the source use classes, greedy quantifiers on classes, sequences,
  alternatives, optional groups and \<open>\b\<close>. \<open>Repeat C lo hi\<close> is the class \<open>C\<close>
  with the quantifier \<open>{lo,hi}\<close> (\<open>hi = None\<close> for no upper bound: \<open>+\<close> is
  \<open>Repeat C 1 None\<close>, \<open>*\<close> is \<open>Repeat C 0 None\<close>).
\<close>

datatype regex =
    Class "jschar \<Rightarrow> bool"
  | Repeat "jschar \<Rightarrow> bool" nat "nat option"
  | Seq regex regex
  | Alt regex regex
  | Opt regex
  | WordBoundary
  | Empty

text \<open>\<open>\b\<close> holds at \<open>i\<close> when exactly one of the units before and at \<open>i\<close> is a word character.\<close>

definition isWordBoundary :: "jsstring \<Rightarrow> nat \<Rightarrow> bool" where
  "isWordBoundary s i \<longleftrightarrow>
     (0 < i \<and> isWordChar (s ! (i - 1))) \<noteq> (i < length s \<and> isWordChar (s ! i))"

text \<open>
  The backtracking matcher, as the list of the end positions of the matches that start
  at \<open>i\<close>, in the order in which backtracking tries them: a greedy quantifier tries the
  longest run first, an alternative tries its left side first, an optional group tries
  to match before it is skipped. The match the engine reports is the head of the list.
\<close>

fun ends :: "regex \<Rightarrow> jsstring \<Rightarrow> nat \<Rightarrow> nat list" where
  "ends (Class C) s i = (if i < length s \<and> C (s ! i) then [i + 1] else [])"
| "ends (Repeat C lo hi) s i =
     (let run = length (takeWhile C (drop i s));
          n = (case hi of None \<Rightarrow> run | Some h \<Rightarrow> min run h)
      in if n < lo then [] else rev [i + lo..<i + n + 1])"
| "ends (Seq a b) s i = concat (map (ends b s) (ends a s i))"
| "ends (Alt a b) s i = ends a s i @ ends b s i"
| "ends (Opt a) s i = ends a s i @ [i]"
| "ends WordBoundary s i = (if isWordBoundary s i then [i] else [])"
| "ends Empty s i = [i]"

text \<open>A sequence of patterns, a literal string, and a group repeated a fixed number of times.\<close>

definition seq :: "regex list \<Rightarrow> regex" where
  "seq rs = foldr Seq rs Empty"

definition chr :: "char \<Rightarrow> regex" where
  "chr c = Class (\<lambda>x. x = of_char c)"

definition lit :: "string \<Rightarrow> regex" where
  "lit cs = seq (map chr cs)"

fun times :: "nat \<Rightarrow> regex \<Rightarrow> regex" where
  "times 0 r = Empty"
| "times (Suc n) r = Seq r (times n r)"

text \<open>
  \<open>re.exec(s)\<close> for a pattern with the \<open>g\<close> flag, started at \<open>lastIndex\<close>: the first
  start position from \<open>lastIndex\<close> on at which the pattern matches, with the end of the
  match there (the new \<open>lastIndex\<close>); \<open>None\<close> is \<open>null\<close>.
\<close>

definition exec :: "regex \<Rightarrow> jsstring \<Rightarrow> nat \<Rightarrow> (nat \<times> nat) option" where
  "exec re s lastIndex =
     (case find (\<lambda>k. ends re s k \<noteq> []) [lastIndex..<length s + 1] of
        None \<Rightarrow> None
      | Some k \<Rightarrow> Some (k, hd (ends re s k)))"

text \<open>
  \<open>s.replace(re, replacement)\<close> for a pattern with the \<open>g\<close> flag and a replacement
  without \<open>$\<close>: every match, from left to right, is replaced; after an empty match the
  search goes on one unit further. \<open>nextPos\<close> is the end of the last match.
\<close>

function replaceFrom :: "regex \<Rightarrow> jsstring \<Rightarrow> jsstring \<Rightarrow> nat \<Rightarrow> nat \<Rightarrow> jsstring" where
  "replaceFrom re replacement s lastIndex nextPos =
     (case exec re s lastIndex of
        None \<Rightarrow> drop nextPos s
      | Some (k, e) \<Rightarrow>
          substring s nextPos k @ replacement
            @ replaceFrom re replacement s (if e = k then e + 1 else e) e)"
  by pat_completeness auto
termination
proof (relation "measure (\<lambda>(re, replacement, s, lastIndex, nextPos). length s + 1 - lastIndex)")
  show "wf (measure (\<lambda>(re, replacement, s, lastIndex, nextPos). length s + 1 - lastIndex))"
    by simp
next
  fix re :: regex and replacement s :: jsstring and lastIndex nextPos :: nat and x2 k e
  assume ex: "exec re s lastIndex = Some x2" and x2: "(k, e) = x2"
  have ge: "\<forall>e \<in> set (ends r s i). i \<le> e" for r i
    by (induction r arbitrary: i) (auto simp: Let_def split: option.splits, fastforce+)
  from ex x2 obtain kk where
    f: "find (\<lambda>k. ends re s k \<noteq> []) [lastIndex..<length s + 1] = Some kk" and
    k: "k = kk" and e: "e = hd (ends re s kk)"
    by (auto simp: exec_def split: option.splits)
  have fs: "find P xs = Some x \<Longrightarrow> P x \<and> x \<in> set xs" for P :: "nat \<Rightarrow> bool" and xs x
    by (induction xs) (auto split: if_splits)
  from fs [OF f] have kr: "lastIndex \<le> k" "k \<le> length s" "ends re s k \<noteq> []"
    unfolding k by auto
  from kr(3) e k ge [of re k] have "k \<le> e"
    by (cases "ends re s k") auto
  with kr show "((re, replacement, s, if e = k then e + 1 else e, e),
                 (re, replacement, s, lastIndex, nextPos))
                \<in> measure (\<lambda>(re, replacement, s, lastIndex, nextPos). length s + 1 - lastIndex)"
    by auto
qed

declare replaceFrom.simps [simp del]

definition replace :: "jsstring \<Rightarrow> regex \<Rightarrow> jsstring \<Rightarrow> jsstring" where
  "replace s re replacement = replaceFrom re replacement s 0 0"

text \<open>
  \<open>s.split(re)\<close> for a pattern that is one capturing group: at each position \<open>q\<close> the
  pattern is tried at \<open>q\<close> only; a match that ends at the last split point \<open>p\<close> is
  passed over; otherwise the piece from \<open>p\<close> to \<open>q\<close> and then the text of the group,
  which is the whole match, are appended, and the search goes on from the end of the
  match. The rest of the string is the last piece.
\<close>

function splitFrom :: "regex \<Rightarrow> jsstring \<Rightarrow> nat \<Rightarrow> nat \<Rightarrow> jsstring list" where
  "splitFrom re s p q =
     (if q < length s then
        (case ends re s q of
           [] \<Rightarrow> splitFrom re s p (q + 1)
         | e0 # _ \<Rightarrow>
             (let e = min e0 (length s)
              in if e = p then splitFrom re s p (q + 1)
                 else substring s p q # substring s q e # splitFrom re s e e))
      else [substring s p (length s)])"
  by pat_completeness auto
termination
proof (relation "measures [\<lambda>(re, s, p, q). length s - q, \<lambda>(re, s, p, q). if p = q then 0 else 1]")
  show "wf (measures [\<lambda>(re, s, p, q). length s - q, \<lambda>(re, s, p, q). if p = q then 0 else 1])"
    by simp
next
  fix re :: regex and s :: jsstring and p q :: nat
  assume "q < length s"
  then show "((re, s, p, q + 1), (re, s, p, q))
              \<in> measures [\<lambda>(re, s, p, q). length s - q, \<lambda>(re, s, p, q). if p = q then 0 else 1]"
    by auto
next
  fix re :: regex and s :: jsstring and p q :: nat and e0 es e
  assume "q < length s" "e = min e0 (length s)" "e = p"
  then show "((re, s, p, q + 1), (re, s, p, q))
              \<in> measures [\<lambda>(re, s, p, q). length s - q, \<lambda>(re, s, p, q). if p = q then 0 else 1]"
    by auto
next
  fix re :: regex and s :: jsstring and p q :: nat and e0 es e
  assume q: "q < length s" and en: "ends re s q = e0 # es"
    and e: "e = min e0 (length s)" and ne: "e \<noteq> p"
  have ge: "\<forall>e \<in> set (ends r s i). i \<le> e" for r i
    by (induction r arbitrary: i) (auto simp: Let_def split: option.splits, fastforce+)
  from ge [of re q] en have "q \<le> e0" by simp
  with q e have "q \<le> e" "e \<le> length s" by auto
  with q ne show "((re, s, e, e), (re, s, p, q))
              \<in> measures [\<lambda>(re, s, p, q). length s - q, \<lambda>(re, s, p, q). if p = q then 0 else 1]"
    by auto
qed

declare splitFrom.simps [simp del]

definition split :: "jsstring \<Rightarrow> regex \<Rightarrow> jsstring list" where
  "split s re =
     (if length s = 0 then (if ends re s 0 \<noteq> [] then [] else [s])
      else splitFrom re s 0 0)"


section \<open>Applying a redaction (applyRedaction)\<close>

record RedactionResult =
  redactedText :: jsstring
  entitiesWithIndices :: "DetectedEntity list"

text \<open>The collision test of a found occurrence against the ranges already kept.\<close>

definition isOverlap :: "int \<Rightarrow> int \<Rightarrow> DetectedEntity list \<Rightarrow> bool" where
  "isOverlap foundIndex len processedEntities =
     list_ex (\<lambda>e. startIndex e \<noteq> None \<and> endIndex e \<noteq> None \<and>
                   foundIndex < the (endIndex e) \<and> foundIndex + len > the (startIndex e))
       processedEntities"

text \<open>
  The \<open>while\<close> loop over the occurrences of \<open>entity.text\<close> in the original text. It
  goes on for as long as \<open>indexOf\<close> finds an occurrence; \<open>None\<close> is a loop that never
  ends.
\<close>

partial_function (option) scanOccurrences ::
  "jsstring \<Rightarrow> DetectedEntity \<Rightarrow> int \<Rightarrow> DetectedEntity list \<Rightarrow> DetectedEntity list option" where
  "scanOccurrences text entity searchIndex processedEntities =
     (let foundIndex = indexOf text (text_of entity) searchIndex
      in if foundIndex \<noteq> - 1 then
           scanOccurrences text entity (foundIndex + 1)
             (if \<not> isOverlap foundIndex (int (length (text_of entity))) processedEntities
              then processedEntities @
                     [entity\<lparr>startIndex := Some foundIndex,
                             endIndex := Some (foundIndex + int (length (text_of entity)))\<rparr>]
              else processedEntities)
         else Some processedEntities)"

declare scanOccurrences.simps [code]

text \<open>
  \<open>new RegExp(escapedText, 'g')\<close>: every syntax character of \<open>entity.text\<close> is
  escaped with a backslash, so the pattern is the sequence of the code units of the
  text, each standing for itself.
\<close>

definition literalRegex :: "jsstring \<Rightarrow> regex" where
  "literalRegex t = seq (map (\<lambda>c. Class (\<lambda>x. x = c)) t)"

text \<open>\<open>sortedEntities.forEach\<close>, on the state \<open>(currentText, processedEntities)\<close>.\<close>

fun forEachEntity ::
  "jsstring \<Rightarrow> RedactionMode \<Rightarrow> DetectedEntity list \<Rightarrow> jsstring \<times> DetectedEntity list
     \<Rightarrow> (jsstring \<times> DetectedEntity list) option" where
  "forEachEntity text mode [] state = Some state"
| "forEachEntity text mode (entity # rest) (currentText, processedEntities) =
     (case scanOccurrences text entity 0 processedEntities of
        None \<Rightarrow> None
      | Some processedEntities' \<Rightarrow>
          (let replacement = (if mode = MASK then js ''['' @ typeName (type_of entity) @ js '']''
                              else []);
               regex = literalRegex (text_of entity)
           in forEachEntity text mode rest
                (replace currentText regex replacement, processedEntities')))"

text \<open>
  The two sorts are stable: by descending length of the text, and by ascending
  \<open>startIndex || 0\<close>.
\<close>

definition applyRedaction ::
  "jsstring \<Rightarrow> DetectedEntity list \<Rightarrow> RedactionMode \<Rightarrow> RedactionResult option" where
  "applyRedaction text entities mode =
     (let sortedEntities = sort_key (\<lambda>e. - int (length (text_of e))) entities
      in case forEachEntity text mode sortedEntities (text, []) of
           None \<Rightarrow> None
         | Some (currentText, processedEntities) \<Rightarrow>
             Some \<lparr>redactedText =
                     trim (replace currentText (Repeat (\<lambda>c. c = 0x20) 1 None) (js '' '')),
                   entitiesWithIndices =
                     sort_key (\<lambda>e. case startIndex e of None \<Rightarrow> 0 | Some i \<Rightarrow> i)
                       processedEntities\<rparr>)"

text \<open>
  A resolved entity: both indices are set, \<open>0 \<le> startIndex < endIndex \<le> text.length\<close>,
  and its text is the original text between the two indices.
\<close>

definition resolved :: "jsstring \<Rightarrow> DetectedEntity \<Rightarrow> bool" where
  "resolved text e \<longleftrightarrow>
     (case (startIndex e, endIndex e) of
        (Some s, Some t) \<Rightarrow>
          0 \<le> s \<and> s < t \<and> t \<le> int (length text) \<and>
          text_of e = substring text (nat s) (nat t)
      | _ \<Rightarrow> False)"

text \<open>The overlap of the ranges of two resolved entities.\<close>

definition overlaps :: "DetectedEntity \<Rightarrow> DetectedEntity \<Rightarrow> bool" where
  "overlaps a b \<longleftrightarrow>
     the (startIndex a) < the (endIndex b) \<and> the (endIndex a) > the (startIndex b)"


section \<open>Word diff (computeWordDiff)\<close>

record DiffResult =
  actualChunks :: "DiffChunk list"
  expectedChunks :: "DiffChunk list"

text \<open>The pattern \<open>/([^\S\r\n]+|[.,!?;:]|\b)/\<close>.\<close>

definition tokenizer :: regex where
  "tokenizer =
     Alt (Repeat (\<lambda>c. \<not> (\<not> isWhiteSpace c \<or> c = 0x0D \<or> c = 0x0A)) 1 None)
       (Alt (Class (oneOf ''.,!?;:'')) WordBoundary)"

definition tokens :: "jsstring \<Rightarrow> jsstring list" where
  "tokens s = filter (\<lambda>s. s \<noteq> []) (split s tokenizer)"

text \<open>The body of the inner loop that fills \<open>dp[i][j]\<close>.\<close>

definition lcsCell :: "jsstring list \<Rightarrow> jsstring list \<Rightarrow> nat \<Rightarrow> nat \<Rightarrow> nat list list \<Rightarrow> nat list list" where
  "lcsCell actualTokens expectedTokens i j dp =
     (if actualTokens ! (i - 1) = expectedTokens ! (j - 1)
      then setCell dp i j (dp ! (i - 1) ! (j - 1) + 1)
      else setCell dp i j (max (dp ! (i - 1) ! j) (dp ! i ! (j - 1))))"

definition lcsTable :: "jsstring list \<Rightarrow> jsstring list \<Rightarrow> nat list list" where
  "lcsTable actualTokens expectedTokens =
     (let m = length actualTokens; n = length expectedTokens
      in fold (\<lambda>i dp. fold (lcsCell actualTokens expectedTokens i) [1..<n + 1] dp)
           [1..<m + 1] (replicate (m + 1) (replicate (n + 1) 0)))"

text \<open>
  The value \<open>dp[i][j]\<close> holds once the table is filled, by the recurrence of the
  longest common subsequence of the first \<open>i\<close> actual and the first \<open>j\<close> expected
  tokens.
\<close>

fun lcs :: "jsstring list \<Rightarrow> jsstring list \<Rightarrow> nat \<Rightarrow> nat \<Rightarrow> nat" where
  "lcs a e 0 j = 0"
| "lcs a e (Suc i) 0 = 0"
| "lcs a e (Suc i) (Suc j) =
     (if a ! i = e ! j then lcs a e i j + 1
      else max (lcs a e i (Suc j)) (lcs a e (Suc i) j))"

text \<open>
  The backtracking \<open>while (i > 0 || j > 0)\<close> loop with its three branches; when none
  of them is taken the loop goes round with \<open>i\<close> and \<open>j\<close> as they are.
\<close>

partial_function (option) backtrack ::
  "jsstring list \<Rightarrow> jsstring list \<Rightarrow> nat list list \<Rightarrow> nat \<Rightarrow> nat
     \<Rightarrow> DiffChunk list \<Rightarrow> DiffChunk list \<Rightarrow> (DiffChunk list \<times> DiffChunk list) option" where
  "backtrack actualTokens expectedTokens dp i j tempActual tempExpected =
     (if i > 0 \<or> j > 0 then
        if i > 0 \<and> j > 0 \<and> actualTokens ! (i - 1) = expectedTokens ! (j - 1) then
          backtrack actualTokens expectedTokens dp (i - 1) (j - 1)
            (tempActual @ [\<lparr>value_of = actualTokens ! (i - 1), chunk_type = match\<rparr>])
            (tempExpected @ [\<lparr>value_of = expectedTokens ! (j - 1), chunk_type = match\<rparr>])
        else if j > 0 \<and> (i = 0 \<or> dp ! i ! (j - 1) \<ge> dp ! (i - 1) ! j) then
          backtrack actualTokens expectedTokens dp i (j - 1) tempActual
            (tempExpected @ [\<lparr>value_of = expectedTokens ! (j - 1), chunk_type = mismatch_expected\<rparr>])
        else if i > 0 \<and> (j = 0 \<or> dp ! i ! (j - 1) < dp ! (i - 1) ! j) then
          backtrack actualTokens expectedTokens dp (i - 1) j
            (tempActual @ [\<lparr>value_of = actualTokens ! (i - 1), chunk_type = mismatch_actual\<rparr>])
            tempExpected
        else backtrack actualTokens expectedTokens dp i j tempActual tempExpected
      else Some (tempActual, tempExpected))"

declare backtrack.simps [code]

definition computeWordDiff :: "jsstring \<Rightarrow> jsstring \<Rightarrow> DiffResult option" where
  "computeWordDiff actual expected =
     (let actualTokens = tokens actual;
          expectedTokens = tokens expected;
          m = length actualTokens;
          n = length expectedTokens;
          dp = lcsTable actualTokens expectedTokens
      in case backtrack actualTokens expectedTokens dp m n [] [] of
           None \<Rightarrow> None
         | Some (tempActual, tempExpected) \<Rightarrow>
             Some \<lparr>actualChunks = rev tempActual, expectedChunks = rev tempExpected\<rparr>)"


section \<open>Pattern detection (detectRegexEntities)\<close>

definition isAlnum :: "jschar \<Rightarrow> bool" where
  "isAlnum c \<longleftrightarrow> isAlpha c \<or> isDigit c"

text \<open>\<open>/[a-zA-Z0-9._%+-]+@[a-zA-Z0-9.-]+\.[a-zA-Z]{2,}/g\<close>\<close>

definition emailRegex :: regex where
  "emailRegex =
     seq [Repeat (\<lambda>c. isAlnum c \<or> oneOf ''._%+-'' c) 1 None, chr CHR ''@'',
          Repeat (\<lambda>c. isAlnum c \<or> oneOf ''.-'' c) 1 None, chr CHR ''.'',
          Repeat isAlpha 2 None]"

text \<open>\<open>/\b(?:\d{1,3}\.){3}\d{1,3}\b/g\<close>\<close>

definition ipRegex :: regex where
  "ipRegex =
     seq [WordBoundary, times 3 (seq [Repeat isDigit 1 (Some 3), chr CHR ''.'']),
          Repeat isDigit 1 (Some 3), WordBoundary]"

text \<open>\<open>/https?:\/\/(?:www\.)?[-a-zA-Z0-9@:%._\+~#=]{1,256}\.[a-zA-Z0-9()]{1,6}\b(?:[-a-zA-Z0-9()@:%_\+.~#?&//=]*)/g\<close>\<close>

definition urlRegex :: regex where
  "urlRegex =
     seq [lit ''http'', Opt (chr CHR ''s''), lit ''://'', Opt (lit ''www.''),
          Repeat (\<lambda>c. isAlnum c \<or> oneOf ''-@:%._+~#='' c) 1 (Some 256), chr CHR ''.'',
          Repeat (\<lambda>c. isAlnum c \<or> oneOf ''()'' c) 1 (Some 6), WordBoundary,
          Repeat (\<lambda>c. isAlnum c \<or> oneOf ''-()@:%_+.~#?&/='' c) 0 None]"

text \<open>\<open>/\b(?:\d{4}[ -]?){3}\d{4}\b/g\<close>\<close>

definition ccRegex :: regex where
  "ccRegex =
     seq [WordBoundary, times 3 (seq [Repeat isDigit 4 (Some 4), Opt (Class (oneOf '' -''))]),
          Repeat isDigit 4 (Some 4), WordBoundary]"

text \<open>\<open>/(?:\+?\d{1,3}[ -]?)?\(?\d{3}\)?[ -]?\d{3}[ -]?\d{4}/g\<close>\<close>

definition phoneRegex :: regex where
  "phoneRegex =
     seq [Opt (seq [Opt (chr CHR ''+''), Repeat isDigit 1 (Some 3), Opt (Class (oneOf '' -''))]),
          Opt (chr CHR ''(''), Repeat isDigit 3 (Some 3), Opt (chr CHR '')''),
          Opt (Class (oneOf '' -'')), Repeat isDigit 3 (Some 3),
          Opt (Class (oneOf '' -'')), Repeat isDigit 4 (Some 4)]"

text \<open>\<open>/\b\d{1,4}[/-]\d{1,2}[/-]\d{2,4}\b/g\<close>\<close>

definition dateRegex :: regex where
  "dateRegex =
     seq [WordBoundary, Repeat isDigit 1 (Some 4), Class (oneOf ''/-''),
          Repeat isDigit 1 (Some 2), Class (oneOf ''/-''), Repeat isDigit 2 (Some 4),
          WordBoundary]"

text \<open>\<open>/\b\d{1,2}:\d{2}(?::\d{2})?(?:\s?[APap][Mm])?\b/g\<close>\<close>

definition timeRegex :: regex where
  "timeRegex =
     seq [WordBoundary, Repeat isDigit 1 (Some 2), chr CHR '':'', Repeat isDigit 2 (Some 2),
          Opt (seq [chr CHR '':'', Repeat isDigit 2 (Some 2)]),
          Opt (seq [Opt (Class isWhiteSpace), Class (oneOf ''APap''), Class (oneOf ''Mm'')]),
          WordBoundary]"

text \<open>
  \<open>while ((match = re.exec(text)) !== null) body\<close>: \<open>body\<close> gets \<open>match[0]\<close> and the
  entities so far. The next search starts at the end of the match, so the loop does not
  end if a match is empty; \<open>None\<close> is a loop that never ends.
\<close>

partial_function (option) execLoop ::
  "regex \<Rightarrow> jsstring \<Rightarrow> (jsstring \<Rightarrow> DetectedEntity list \<Rightarrow> DetectedEntity list) \<Rightarrow> nat
     \<Rightarrow> DetectedEntity list \<Rightarrow> DetectedEntity list option" where
  "execLoop re text body lastIndex entities =
     (case exec re text lastIndex of
        None \<Rightarrow> Some entities
      | Some (k, e) \<Rightarrow> execLoop re text body e (body (substring text k e) entities))"

declare execLoop.simps [code]

text \<open>\<open>entities.push({ text: match[0], type: t })\<close>\<close>

definition push :: "EntityType \<Rightarrow> jsstring \<Rightarrow> DetectedEntity list \<Rightarrow> DetectedEntity list" where
  "push t m entities =
     entities @ [\<lparr>text_of = m, type_of = t, startIndex = None, endIndex = None\<rparr>]"

text \<open>The bodies of the phone and the date loop, with their length filters.\<close>

definition pushPhone :: "jsstring \<Rightarrow> DetectedEntity list \<Rightarrow> DetectedEntity list" where
  "pushPhone m entities = (if length m \<ge> 10 then push PHONE_NUMBER m entities else entities)"

definition pushDate :: "jsstring \<Rightarrow> DetectedEntity list \<Rightarrow> DetectedEntity list" where
  "pushDate m entities = (if length m \<le> 10 then push DATE_TIME m entities else entities)"

definition detectRegexEntities :: "jsstring \<Rightarrow> DetectedEntity list option" where
  "detectRegexEntities text =
     Option.bind (execLoop emailRegex text (push EMAIL_ADDRESS) 0 []) (\<lambda>entities.
     Option.bind (execLoop ipRegex text (push IP_ADDRESS) 0 entities) (\<lambda>entities.
     Option.bind (execLoop urlRegex text (push URL) 0 entities) (\<lambda>entities.
     Option.bind (execLoop ccRegex text (push CREDIT_CARD) 0 entities) (\<lambda>entities.
     Option.bind (execLoop phoneRegex text pushPhone 0 entities) (\<lambda>entities.
     Option.bind (execLoop dateRegex text pushDate 0 entities) (\<lambda>entities.
     execLoop timeRegex text (push DATE_TIME) 0 entities))))))"

text \<open>A lower bound on the length of every match of a pattern.\<close>

fun minlen :: "regex \<Rightarrow> nat" where
  "minlen (Class C) = 1"
| "minlen (Repeat C lo hi) = lo"
| "minlen (Seq a b) = minlen a + minlen b"
| "minlen (Alt a b) = min (minlen a) (minlen b)"
| "minlen (Opt a) = 0"
| "minlen WordBoundary = 0"
| "minlen Empty = 0"


section \<open>Properties of the edit distance\<close>

lemma fold_upt_invariant:
  assumes "a \<le> b" and "P a t"
    and "\<And>k t. a \<le> k \<Longrightarrow> k < b \<Longrightarrow> P k t \<Longrightarrow> P (Suc k) (f k t)"
  shows "P b (fold f [a..<b] t)"
  using assms
proof (induction b)
  case 0
  then show ?case by simp
next
  case (Suc b)
  show ?case
  proof (cases "a = Suc b")
    case True
    with Suc.prems show ?thesis by simp
  next
    case False
    with Suc.prems have ab: "a \<le> b" by simp
    have "P b (fold f [a..<b] t)"
      using ab Suc.prems(2) Suc.prems(3) by (intro Suc.IH) auto
    with ab Suc.prems(3) [of b] show ?thesis by simp
  qed
qed

lemma lev_col0: "lev s1 s2 i 0 = i"
  by (cases i) simp_all

lemma tableHolds_weaken:
  assumes "tableHolds rows cols f R t"
    and "\<And>r c. r \<le> rows \<Longrightarrow> c \<le> cols \<Longrightarrow> R' r c \<Longrightarrow> R r c"
  shows "tableHolds rows cols f R' t"
  using assms unfolding tableHolds_def by blast

lemma tableHolds_setCell:
  assumes t: "tableHolds rows cols f R t" and j: "j \<le> rows" and i: "i \<le> cols"
    and v: "v = f j i"
    and R': "\<And>j' i'. R' j' i' \<Longrightarrow> R j' i' \<or> (j' = j \<and> i' = i)"
  shows "tableHolds rows cols f R' (setCell t j i v)"
proof -
  from t have len: "length t = rows + 1"
    and rows: "\<And>r. r \<le> rows \<Longrightarrow> length (t ! r) = cols + 1"
    and cells: "\<And>r c. r \<le> rows \<Longrightarrow> c \<le> cols \<Longrightarrow> R r c \<Longrightarrow> t ! r ! c = f r c"
    unfolding tableHolds_def by auto
  have cell: "setCell t j i w ! j' = (if j' = j then (t ! j)[i := w] else t ! j')"
    if "j' \<le> rows" for j' w
    using that len by (simp add: setCell_def nth_list_update)
  show ?thesis
    unfolding tableHolds_def
  proof (intro conjI allI impI)
    show "length (setCell t j i v) = rows + 1"
      using len by (simp add: setCell_def)
  next
    fix j' assume "j' \<le> rows"
    then show "length (setCell t j i v ! j') = cols + 1"
      using rows j by (simp add: cell)
  next
    fix j' i' assume a: "j' \<le> rows" "i' \<le> cols" "R' j' i'"
    from R' [OF a(3)] show "setCell t j i v ! j' ! i' = f j' i'"
    proof
      assume "R j' i'"
      with a cells [of j' i'] rows [of j] j i v show ?thesis
        by (auto simp: cell nth_list_update)
    next
      assume "j' = j \<and> i' = i"
      with a rows [of j] v show ?thesis
        by (simp add: cell)
    qed
  qed
qed

lemma levCell_value:
  assumes "tableHolds (length s2) (length s1) (\<lambda>j i. lev s1 s2 i j) R t" "0 < j" "j \<le> length s2" "0 < i" "i \<le> length s1"
    and "R j (i - 1)" "R (j - 1) i" "R (j - 1) (i - 1)"
  shows "levCell s1 s2 j i t = setCell t j i (lev s1 s2 i j)"
proof -
  from assms obtain i' j' where ij: "i = Suc i'" "j = Suc j'"
    by (metis Suc_pred)
  from assms have "t ! j ! (i - 1) = lev s1 s2 (i - 1) j"
    "t ! (j - 1) ! i = lev s1 s2 i (j - 1)" "t ! (j - 1) ! (i - 1) = lev s1 s2 (i - 1) (j - 1)"
    unfolding tableHolds_def by auto
  then show ?thesis
    by (simp add: levCell_def ij)
qed

lemma lev_row:
  assumes "tableHolds (length s2) (length s1) (\<lambda>j i. lev s1 s2 i j) (\<lambda>j' i. j' < j \<or> i = 0) t" "0 < j" "j \<le> length s2"
  shows "tableHolds (length s2) (length s1) (\<lambda>j i. lev s1 s2 i j) (\<lambda>j' i. j' < Suc j \<or> i = 0) (fold (levCell s1 s2 j) [1..<length s1 + 1] t)"
proof -
  let ?Q = "\<lambda>c t. tableHolds (length s2) (length s1) (\<lambda>j i. lev s1 s2 i j) (\<lambda>j' i. j' < j \<or> i = 0 \<or> (j' = j \<and> i < c)) t"
  have "?Q (length s1 + 1) (fold (levCell s1 s2 j) [1..<length s1 + 1] t)"
  proof (rule fold_upt_invariant [where P = ?Q])
    show "1 \<le> length s1 + 1" by simp
    show "?Q 1 t"
      using assms(1) unfolding tableHolds_def by auto
  next
    fix c t
    assume c: "1 \<le> c" "c < length s1 + 1" and q: "?Q c t"
    have "levCell s1 s2 j c t = setCell t j c (lev s1 s2 c j)"
      using q assms(2,3) c by (intro levCell_value [OF q]) auto
    moreover have "?Q (Suc c) (setCell t j c (lev s1 s2 c j))"
      using assms(3) c by (intro tableHolds_setCell [OF q]) auto
    ultimately show "?Q (Suc c) (levCell s1 s2 j c t)" by simp
  qed
  then show ?thesis
    by (rule tableHolds_weaken) auto
qed

lemma calculateLevenshteinDistance_lev:
  "calculateLevenshteinDistance s1 s2 = lev s1 s2 (length s1) (length s2)"
proof -
  let ?t0 = "replicate (length s2 + 1) (replicate (length s1 + 1) (0::nat))"
  let ?t1 = "fold (\<lambda>i track. setCell track 0 i i) [0..<length s1 + 1] ?t0"
  let ?t2 = "fold (\<lambda>j track. setCell track j 0 j) [0..<length s2 + 1] ?t1"
  let ?t3 = "fold (\<lambda>j track. fold (levCell s1 s2 j) [1..<length s1 + 1] track)
               [1..<length s2 + 1] ?t2"
  have t0: "tableHolds (length s2) (length s1) (\<lambda>j i. lev s1 s2 i j) (\<lambda>j i. j = 0 \<and> i < 0) ?t0"
    by (simp add: tableHolds_def del: replicate.simps)
  have t1: "tableHolds (length s2) (length s1) (\<lambda>j i. lev s1 s2 i j) (\<lambda>j i. j = 0 \<and> i < length s1 + 1) ?t1"
  proof (rule fold_upt_invariant [where P = "\<lambda>k. tableHolds (length s2) (length s1) (\<lambda>j i. lev s1 s2 i j) (\<lambda>j i. j = 0 \<and> i < k)"])
    fix k t assume "k < length s1 + 1" "tableHolds (length s2) (length s1) (\<lambda>j i. lev s1 s2 i j) (\<lambda>j i. j = 0 \<and> i < k) t"
    then show "tableHolds (length s2) (length s1) (\<lambda>j i. lev s1 s2 i j) (\<lambda>j i. j = 0 \<and> i < Suc k) (setCell t 0 k k)"
      by (intro tableHolds_setCell [where R = "\<lambda>j i. j = 0 \<and> i < k"])
         (auto simp: lev_col0)
  qed (use t0 in auto)
  have t2: "tableHolds (length s2) (length s1) (\<lambda>j i. lev s1 s2 i j) (\<lambda>j i. j = 0 \<or> (i = 0 \<and> j < length s2 + 1)) ?t2"
  proof (rule fold_upt_invariant [where P = "\<lambda>k. tableHolds (length s2) (length s1) (\<lambda>j i. lev s1 s2 i j) (\<lambda>j i. j = 0 \<or> (i = 0 \<and> j < k))"])
    show "tableHolds (length s2) (length s1) (\<lambda>j i. lev s1 s2 i j) (\<lambda>j i. j = 0 \<or> (i = 0 \<and> j < 0)) ?t1"
      using t1 unfolding tableHolds_def by auto
  next
    fix k t assume "k < length s2 + 1" "tableHolds (length s2) (length s1) (\<lambda>j i. lev s1 s2 i j) (\<lambda>j i. j = 0 \<or> (i = 0 \<and> j < k)) t"
    then show "tableHolds (length s2) (length s1) (\<lambda>j i. lev s1 s2 i j) (\<lambda>j i. j = 0 \<or> (i = 0 \<and> j < Suc k)) (setCell t k 0 k)"
      by (intro tableHolds_setCell [where R = "\<lambda>j i. j = 0 \<or> (i = 0 \<and> j < k)"])
         (auto simp: lev_col0)
  qed simp
  have t3: "tableHolds (length s2) (length s1) (\<lambda>j i. lev s1 s2 i j) (\<lambda>j i. j < length s2 + 1 \<or> i = 0) ?t3"
  proof (rule fold_upt_invariant [where P = "\<lambda>k. tableHolds (length s2) (length s1) (\<lambda>j i. lev s1 s2 i j) (\<lambda>j i. j < k \<or> i = 0)"])
    show "tableHolds (length s2) (length s1) (\<lambda>j i. lev s1 s2 i j) (\<lambda>j i. j < 1 \<or> i = 0) ?t2"
      using t2 unfolding tableHolds_def by auto
  next
    fix k t assume "1 \<le> k" "k < length s2 + 1" "tableHolds (length s2) (length s1) (\<lambda>j i. lev s1 s2 i j) (\<lambda>j i. j < k \<or> i = 0) t"
    then show "tableHolds (length s2) (length s1) (\<lambda>j i. lev s1 s2 i j) (\<lambda>j i. j < Suc k \<or> i = 0)
                 (fold (levCell s1 s2 k) [1..<length s1 + 1] t)"
      by (intro lev_row) auto
  qed simp
  have "calculateLevenshteinDistance s1 s2 = ?t3 ! length s2 ! length s1"
    by (simp add: calculateLevenshteinDistance_def Let_def)
  also have "\<dots> = lev s1 s2 (length s1) (length s2)"
    using t3 unfolding tableHolds_def by auto
  finally show ?thesis .
qed

lemma lev_diag: "lev s s i i = 0"
  by (induction i) simp_all




text \<open>
  Claim C2, as amended. The distance is computed over UTF-16 code units, the units of
  \<open>s.length\<close> and \<open>s[i]\<close>: the distance of the empty string and \<open>s\<close> is the number
  of code units of \<open>s\<close>, and the distance of \<open>s\<close> and itself is 0.
\<close>

theorem levenshtein_code_units:
  "calculateLevenshteinDistance [] s = length s
   \<and> calculateLevenshteinDistance s [] = length s
   \<and> calculateLevenshteinDistance s s = 0"
  by (simp add: calculateLevenshteinDistance_lev lev_col0 lev_diag)

text \<open>
  The claim as stated fails: U+1F600 is one code point and two code units
  (\<open>0xD83D\<close>, \<open>0xDE00\<close>), and its distance from the empty string is 2.
\<close>

theorem levenshtein_code_points_counterexample:
  "calculateLevenshteinDistance [] [0xD83D, 0xDE00] = 2
   \<and> codePointCount [0xD83D, 0xDE00] = 1"
  by (simp add: calculateLevenshteinDistance_lev isHighSurrogate_def isLowSurrogate_def)

subsection \<open>Rounding to a double\<close>


















section \<open>Properties of the word diff\<close>

lemma ends_ge: "e \<in> set (ends r s i) \<Longrightarrow> i \<le> e"
  by (induction r arbitrary: i e) (auto simp: Let_def split: if_splits option.splits, fastforce+)

lemma splitFrom_concat:
  "p \<le> q \<Longrightarrow> q \<le> length s \<Longrightarrow> concat (splitFrom re s p q) = drop p s"
proof (induction re s p q rule: splitFrom.induct)
  case (1 re s p q)
  show ?case
  proof (cases "q < length s")
    case False
    with "1.prems" show ?thesis
      by (subst splitFrom.simps) (simp add: substring_def)
  next
    case True
    note q = True
    show ?thesis
    proof (cases "ends re s q")
      case Nil
      with q "1.prems" "1.IH"(1) show ?thesis
        by (subst splitFrom.simps) simp
    next
      case (Cons e0 es)
      define e where "e = min e0 (length s)"
      from Cons ends_ge [of e0 re s q] have "q \<le> e0" by simp
      with q have qe: "q \<le> e" "e \<le> length s" by (simp_all add: e_def)
      show ?thesis
      proof (cases "e = p")
        case True
        with q Cons "1.prems" "1.IH"(2) [OF q Cons e_def True] show ?thesis
          by (subst splitFrom.simps) (simp add: e_def)
      next
        case False
        have ih: "concat (splitFrom re s e e) = drop e s"
          using "1.IH"(3) [OF q Cons e_def False] qe by simp
        have d1: "drop q s = drop (q - p) (drop p s)"
          using "1.prems" by simp
        have d2: "drop e s = drop (e - q) (drop q s)"
          using qe by simp
        have "take (e - q) (drop q s) @ drop e s = drop q s"
          by (simp only: d2 append_take_drop_id)
        moreover have "take (q - p) (drop p s) @ drop q s = drop p s"
          by (simp only: d1 append_take_drop_id)
        ultimately have "substring s p q @ substring s q e @ drop e s = drop p s"
          by (simp only: substring_def)
        with q Cons False ih show ?thesis
          by (subst splitFrom.simps) (simp add: e_def Let_def)
      qed
    qed
  qed
qed

lemma split_concat: "concat (split s re) = s"
  by (simp add: split_def splitFrom_concat)

lemma concat_filter_nonempty: "concat (filter (\<lambda>s. s \<noteq> []) xs) = concat xs"
  by (induction xs) simp_all

lemma tokens_concat: "concat (tokens s) = s"
  by (simp add: tokens_def concat_filter_nonempty split_concat)

lemma tokens_empty: "tokens [] = []"
  by (simp add: tokens_def split_def)

lemma backtrack_same:
  "i \<le> length t \<Longrightarrow>
   backtrack t t dp i i tempActual tempExpected
     = Some (tempActual @ map (\<lambda>v. \<lparr>value_of = v, chunk_type = match\<rparr>) (rev (take i t)),
             tempExpected @ map (\<lambda>v. \<lparr>value_of = v, chunk_type = match\<rparr>) (rev (take i t)))"
proof (induction i arbitrary: tempActual tempExpected)
  case 0
  show ?case by (subst backtrack.simps) simp
next
  case (Suc i)
  then have "i < length t" by simp
  with Suc show ?case
    by (subst backtrack.simps) (simp add: take_Suc_conv_app_nth)
qed

lemma backtrack_done:
  "backtrack a e dp 0 0 tempActual tempExpected = Some (tempActual, tempExpected)"
  by (subst backtrack.simps) simp

lemma backtrack_left:
  "0 < j \<Longrightarrow> backtrack a e dp 0 j tempActual tempExpected
     = backtrack a e dp 0 (j - 1) tempActual
         (tempExpected @ [\<lparr>value_of = e ! (j - 1), chunk_type = mismatch_expected\<rparr>])"
  by (subst backtrack.simps) simp

lemma backtrack_up:
  "0 < i \<Longrightarrow> backtrack a e dp i 0 tempActual tempExpected
     = backtrack a e dp (i - 1) 0
         (tempActual @ [\<lparr>value_of = a ! (i - 1), chunk_type = mismatch_actual\<rparr>])
         tempExpected"
  by (subst backtrack.simps) simp

lemma backtrack_inner:
  "0 < i \<Longrightarrow> 0 < j \<Longrightarrow>
   backtrack a e dp i j tempActual tempExpected
     = (if a ! (i - 1) = e ! (j - 1) then
          backtrack a e dp (i - 1) (j - 1)
            (tempActual @ [\<lparr>value_of = a ! (i - 1), chunk_type = match\<rparr>])
            (tempExpected @ [\<lparr>value_of = e ! (j - 1), chunk_type = match\<rparr>])
        else if dp ! i ! (j - 1) \<ge> dp ! (i - 1) ! j then
          backtrack a e dp i (j - 1) tempActual
            (tempExpected @ [\<lparr>value_of = e ! (j - 1), chunk_type = mismatch_expected\<rparr>])
        else
          backtrack a e dp (i - 1) j
            (tempActual @ [\<lparr>value_of = a ! (i - 1), chunk_type = mismatch_actual\<rparr>])
            tempExpected)"
  by (subst backtrack.simps) auto

lemma backtrack_returns:
  "\<exists>r. backtrack a e dp i j tempActual tempExpected = Some r"
proof (induction "i + j" arbitrary: i j tempActual tempExpected rule: less_induct)
  case less
  consider "i = 0" "j = 0" | "i = 0" "0 < j" | "0 < i" "j = 0" | "0 < i" "0 < j"
    by auto
  then show ?case
  proof cases
    case 1
    then show ?thesis by (simp add: backtrack_done)
  next
    case 2
    then have "0 + (j - 1) < i + j" by simp
    from less [OF this] 2 show ?thesis
      by (simp only: backtrack_left)
  next
    case 3
    then have "(i - 1) + 0 < i + j" by simp
    from less [OF this] 3 show ?thesis
      by (simp only: backtrack_up)
  next
    case 4
    then have "(i - 1) + (j - 1) < i + j" "i + (j - 1) < i + j" "(i - 1) + j < i + j"
      by simp_all
    from this [THEN less] show ?thesis
      by (simp only: backtrack_inner [OF 4] split: if_split) blast
  qed
qed

lemma computeWordDiff_same:
  "computeWordDiff x x
     = Some \<lparr>actualChunks = map (\<lambda>v. \<lparr>value_of = v, chunk_type = match\<rparr>) (tokens x),
             expectedChunks = map (\<lambda>v. \<lparr>value_of = v, chunk_type = match\<rparr>) (tokens x)\<rparr>"
  by (simp add: computeWordDiff_def Let_def backtrack_same rev_map)

lemma lcs_col0: "lcs a e i 0 = 0"
  by (cases i) simp_all

lemma lcsCell_value:
  assumes "tableHolds (length a) (length e) (lcs a e) R t"
    "0 < i" "i \<le> length a" "0 < j" "j \<le> length e"
    and "R (i - 1) (j - 1)" "R (i - 1) j" "R i (j - 1)"
  shows "lcsCell a e i j t = setCell t i j (lcs a e i j)"
proof -
  from assms obtain i' j' where ij: "i = Suc i'" "j = Suc j'"
    by (metis Suc_pred)
  from assms have "t ! (i - 1) ! (j - 1) = lcs a e (i - 1) (j - 1)"
    "t ! (i - 1) ! j = lcs a e (i - 1) j" "t ! i ! (j - 1) = lcs a e i (j - 1)"
    unfolding tableHolds_def by auto
  then show ?thesis
    by (simp add: lcsCell_def ij)
qed

lemma lcs_row:
  assumes "tableHolds (length a) (length e) (lcs a e) (\<lambda>r c. r < i \<or> c = 0) t"
    "0 < i" "i \<le> length a"
  shows "tableHolds (length a) (length e) (lcs a e) (\<lambda>r c. r < Suc i \<or> c = 0)
           (fold (lcsCell a e i) [1..<length e + 1] t)"
proof -
  let ?Q = "\<lambda>k t. tableHolds (length a) (length e) (lcs a e)
                     (\<lambda>r c. r < i \<or> c = 0 \<or> (r = i \<and> c < k)) t"
  have "?Q (length e + 1) (fold (lcsCell a e i) [1..<length e + 1] t)"
  proof (rule fold_upt_invariant [where P = ?Q])
    show "1 \<le> length e + 1" by simp
    show "?Q 1 t"
      using assms(1) by (rule tableHolds_weaken) auto
  next
    fix k t
    assume k: "1 \<le> k" "k < length e + 1" and q: "?Q k t"
    have "lcsCell a e i k t = setCell t i k (lcs a e i k)"
      using q assms(2,3) k by (intro lcsCell_value [OF q]) auto
    moreover have "?Q (Suc k) (setCell t i k (lcs a e i k))"
      using assms(3) k by (intro tableHolds_setCell [OF q]) auto
    ultimately show "?Q (Suc k) (lcsCell a e i k t)" by simp
  qed
  then show ?thesis
    by (rule tableHolds_weaken) auto
qed

lemma lcsTable_lcs:
  assumes "i \<le> length a" "j \<le> length e"
  shows "lcsTable a e ! i ! j = lcs a e i j"
proof -
  let ?t0 = "replicate (length a + 1) (replicate (length e + 1) (0::nat))"
  have t0: "tableHolds (length a) (length e) (lcs a e) (\<lambda>r c. r < 1 \<or> c = 0) ?t0"
    by (auto simp: tableHolds_def lcs_col0 simp del: replicate.simps)
  have "tableHolds (length a) (length e) (lcs a e) (\<lambda>r c. r < length a + 1 \<or> c = 0)
          (fold (\<lambda>i dp. fold (lcsCell a e i) [1..<length e + 1] dp) [1..<length a + 1] ?t0)"
  proof (rule fold_upt_invariant
      [where P = "\<lambda>k. tableHolds (length a) (length e) (lcs a e) (\<lambda>r c. r < k \<or> c = 0)"])
    fix k t
    assume "1 \<le> k" "k < length a + 1"
      "tableHolds (length a) (length e) (lcs a e) (\<lambda>r c. r < k \<or> c = 0) t"
    then show "tableHolds (length a) (length e) (lcs a e) (\<lambda>r c. r < Suc k \<or> c = 0)
                 (fold (lcsCell a e k) [1..<length e + 1] t)"
      by (intro lcs_row) auto
  qed (use t0 in simp_all)
  then have "tableHolds (length a) (length e) (lcs a e) (\<lambda>r c. r < length a + 1 \<or> c = 0)
               (lcsTable a e)"
    by (simp add: lcsTable_def Let_def)
  with assms show ?thesis
    unfolding tableHolds_def by auto
qed

text \<open>
  Claim C6. The backtracking starts at \<open>(m, n)\<close>, the numbers of tokens, on the table
  \<open>dp\<close>, whose cells follow the recurrence of the longest common subsequence, and
  always returns. With tokens left on both sides (\<open>i > 0\<close>, \<open>j > 0\<close>) a
  step is: on equal tokens a \<open>match\<close> chunk on both sides and a diagonal move;
  otherwise, exactly when \<open>dp[i][j-1] >= dp[i-1][j]\<close>, the expected token is consumed
  as \<open>mismatch-expected\<close>, and else the actual token as \<open>mismatch-actual\<close>. For
  \<open>"the cat sat"\<close> against \<open>"the dog sat"\<close> the result marks \<open>cat\<close> as
  \<open>mismatch-actual\<close>, \<open>dog\<close> as \<open>mismatch-expected\<close> and the other tokens as
  \<open>match\<close> on both sides.
\<close>

theorem backtrack_tie_break:
  "(0 < i \<and> 0 < j \<longrightarrow>
      backtrack a e dp i j tempActual tempExpected
        = (if a ! (i - 1) = e ! (j - 1) then
             backtrack a e dp (i - 1) (j - 1)
               (tempActual @ [\<lparr>value_of = a ! (i - 1), chunk_type = match\<rparr>])
               (tempExpected @ [\<lparr>value_of = e ! (j - 1), chunk_type = match\<rparr>])
           else if dp ! i ! (j - 1) \<ge> dp ! (i - 1) ! j then
             backtrack a e dp i (j - 1) tempActual
               (tempExpected @ [\<lparr>value_of = e ! (j - 1), chunk_type = mismatch_expected\<rparr>])
           else
             backtrack a e dp (i - 1) j
               (tempActual @ [\<lparr>value_of = a ! (i - 1), chunk_type = mismatch_actual\<rparr>])
               tempExpected))
   \<and> (\<exists>r. backtrack a e dp i j tempActual tempExpected = Some r)
   \<and> (i \<le> length a \<and> j \<le> length e \<longrightarrow> lcsTable a e ! i ! j = lcs a e i j)
   \<and> computeWordDiff actual expected
       = (case backtrack (tokens actual) (tokens expected)
                 (lcsTable (tokens actual) (tokens expected))
                 (length (tokens actual)) (length (tokens expected)) [] [] of
            None \<Rightarrow> None
          | Some (tempActual, tempExpected) \<Rightarrow>
              Some \<lparr>actualChunks = rev tempActual, expectedChunks = rev tempExpected\<rparr>)
   \<and> computeWordDiff (js ''the cat sat'') (js ''the dog sat'')
       = Some \<lparr>actualChunks =
                 [\<lparr>value_of = js ''the'', chunk_type = match\<rparr>,
                  \<lparr>value_of = js '' '', chunk_type = match\<rparr>,
                  \<lparr>value_of = js ''cat'', chunk_type = mismatch_actual\<rparr>,
                  \<lparr>value_of = js '' '', chunk_type = match\<rparr>,
                  \<lparr>value_of = js ''sat'', chunk_type = match\<rparr>],
               expectedChunks =
                 [\<lparr>value_of = js ''the'', chunk_type = match\<rparr>,
                  \<lparr>value_of = js '' '', chunk_type = match\<rparr>,
                  \<lparr>value_of = js ''dog'', chunk_type = mismatch_expected\<rparr>,
                  \<lparr>value_of = js '' '', chunk_type = match\<rparr>,
                  \<lparr>value_of = js ''sat'', chunk_type = match\<rparr>]\<rparr>"
proof (intro conjI impI)
  assume "0 < i \<and> 0 < j"
  then show "backtrack a e dp i j tempActual tempExpected
        = (if a ! (i - 1) = e ! (j - 1) then
             backtrack a e dp (i - 1) (j - 1)
               (tempActual @ [\<lparr>value_of = a ! (i - 1), chunk_type = match\<rparr>])
               (tempExpected @ [\<lparr>value_of = e ! (j - 1), chunk_type = match\<rparr>])
           else if dp ! i ! (j - 1) \<ge> dp ! (i - 1) ! j then
             backtrack a e dp i (j - 1) tempActual
               (tempExpected @ [\<lparr>value_of = e ! (j - 1), chunk_type = mismatch_expected\<rparr>])
           else
             backtrack a e dp (i - 1) j
               (tempActual @ [\<lparr>value_of = a ! (i - 1), chunk_type = mismatch_actual\<rparr>])
               tempExpected)"
    by (simp only: backtrack_inner)
next
  show "\<exists>r. backtrack a e dp i j tempActual tempExpected = Some r"
    by (rule backtrack_returns)
next
  assume "i \<le> length a \<and> j \<le> length e"
  then show "lcsTable a e ! i ! j = lcs a e i j"
    by (simp add: lcsTable_lcs)
next
  show "computeWordDiff actual expected
       = (case backtrack (tokens actual) (tokens expected)
                 (lcsTable (tokens actual) (tokens expected))
                 (length (tokens actual)) (length (tokens expected)) [] [] of
            None \<Rightarrow> None
          | Some (tempActual, tempExpected) \<Rightarrow>
              Some \<lparr>actualChunks = rev tempActual, expectedChunks = rev tempExpected\<rparr>)"
    by (simp add: computeWordDiff_def Let_def)
next
  show "computeWordDiff (js ''the cat sat'') (js ''the dog sat'')
       = Some \<lparr>actualChunks =
                 [\<lparr>value_of = js ''the'', chunk_type = match\<rparr>,
                  \<lparr>value_of = js '' '', chunk_type = match\<rparr>,
                  \<lparr>value_of = js ''cat'', chunk_type = mismatch_actual\<rparr>,
                  \<lparr>value_of = js '' '', chunk_type = match\<rparr>,
                  \<lparr>value_of = js ''sat'', chunk_type = match\<rparr>],
               expectedChunks =
                 [\<lparr>value_of = js ''the'', chunk_type = match\<rparr>,
                  \<lparr>value_of = js '' '', chunk_type = match\<rparr>,
                  \<lparr>value_of = js ''dog'', chunk_type = mismatch_expected\<rparr>,
                  \<lparr>value_of = js '' '', chunk_type = match\<rparr>,
                  \<lparr>value_of = js ''sat'', chunk_type = match\<rparr>]\<rparr>"
    by code_simp
qed

theorem backtrack_tie_break_witness:
  "(0::nat) < 1
   \<and> backtrack [js ''cat''] [js ''dog''] [[0, 0], [0, 0]] 1 1 [] []
       = Some ([\<lparr>value_of = js ''cat'', chunk_type = mismatch_actual\<rparr>],
               [\<lparr>value_of = js ''dog'', chunk_type = mismatch_expected\<rparr>])"
  using backtrack_tie_break [of 1 1 "[js ''cat'']" "[js ''dog'']" "[[0, 0], [0, 0]]" "[]" "[]"]
  by (simp add: backtrack_up backtrack_done js_def)

text \<open>
  Claim C7. For every string \<open>x\<close>, the diff of \<open>x\<close> with itself returns, has only
  \<open>match\<close> chunks on both sides, the values of either side are the tokens of \<open>x\<close> in
  order, and their concatenation is \<open>x\<close>; for the empty string both sides are empty.
\<close>

theorem computeWordDiff_same_text:
  "\<exists>r. computeWordDiff x x = Some r
     \<and> (\<forall>c \<in> set (actualChunks r). chunk_type c = match)
     \<and> (\<forall>c \<in> set (expectedChunks r). chunk_type c = match)
     \<and> map value_of (actualChunks r) = tokens x
     \<and> map value_of (expectedChunks r) = tokens x
     \<and> concat (map value_of (actualChunks r)) = x
     \<and> concat (map value_of (expectedChunks r)) = x
     \<and> (x = [] \<longrightarrow> actualChunks r = [] \<and> expectedChunks r = [])"
  by (auto simp: computeWordDiff_same comp_def tokens_concat tokens_empty)

theorem computeWordDiff_same_text_witness:
  "(\<exists>r. computeWordDiff (js ''a b'') (js ''a b'') = Some r
      \<and> map value_of (actualChunks r) = [js ''a'', js '' '', js ''b'']
      \<and> map chunk_type (actualChunks r) = [match, match, match]
      \<and> map value_of (expectedChunks r) = [js ''a'', js '' '', js ''b'']
      \<and> map chunk_type (expectedChunks r) = [match, match, match])
   \<and> computeWordDiff [] [] = Some \<lparr>actualChunks = [], expectedChunks = []\<rparr>"
proof -
  have t: "tokens (js ''a b'') = [js ''a'', js '' '', js ''b'']"
    by code_simp
  from computeWordDiff_same_text [of "js ''a b''"] obtain r where
    r: "computeWordDiff (js ''a b'') (js ''a b'') = Some r"
      "\<forall>c \<in> set (actualChunks r). chunk_type c = match"
      "\<forall>c \<in> set (expectedChunks r). chunk_type c = match"
      "map value_of (actualChunks r) = tokens (js ''a b'')"
      "map value_of (expectedChunks r) = tokens (js ''a b'')"
    by blast
  from r(4) t have la: "length (actualChunks r) = 3"
    by (metis length_map length_Cons list.size(3) numeral_3_eq_3)
  from r(5) t have le: "length (expectedChunks r) = 3"
    by (metis length_map length_Cons list.size(3) numeral_3_eq_3)
  have ca: "map chunk_type (actualChunks r) = [match, match, match]"
    using la r(2) by (auto simp: length_Suc_conv numeral_3_eq_3)
  have ce: "map chunk_type (expectedChunks r) = [match, match, match]"
    using le r(3) by (auto simp: length_Suc_conv numeral_3_eq_3)
  from computeWordDiff_same_text [of "[]"] obtain r0 where
    r0: "computeWordDiff [] [] = Some r0" "actualChunks r0 = []" "expectedChunks r0 = []"
    by blast
  then have "r0 = \<lparr>actualChunks = [], expectedChunks = []\<rparr>"
    by simp
  with r0(1) r(1) r(4,5) t ca ce show ?thesis
    by auto
qed


section \<open>Properties of applyRedaction\<close>

lemma find_Some_D: "find P xs = Some x \<Longrightarrow> P x \<and> x \<in> set xs"
  by (induction xs) (auto split: if_splits)

lemma indexOf_found:
  assumes "indexOf s pat pos \<noteq> - 1"
  shows "\<exists>k. indexOf s pat pos = int k \<and> nat (min (max pos 0) (int (length s))) \<le> k
           \<and> k + length pat \<le> length s \<and> take (length pat) (drop k s) = pat"
proof -
  let ?start = "nat (min (max pos 0) (int (length s)))"
  from assms obtain k where
    f: "find (\<lambda>k. take (length pat) (drop k s) = pat) [?start..<length s + 1] = Some k"
    and i: "indexOf s pat pos = int k"
    by (auto simp: indexOf_def Let_def split: option.splits)
  from find_Some_D [OF f] have t: "take (length pat) (drop k s) = pat" and k: "?start \<le> k" "k \<le> length s"
    by auto
  from arg_cong [OF t, of length] have "length pat \<le> length s - k"
    by simp
  with k i t show ?thesis by auto
qed

lemma indexOf_empty: "indexOf s [] pos \<noteq> - 1"
proof -
  let ?start = "nat (min (max pos 0) (int (length s)))"
  have "?start \<le> length s" by simp
  then have "[?start..<length s + 1] = ?start # [Suc ?start..<length s + 1]"
    by (simp add: upt_conv_Cons)
  then show ?thesis
    by (simp add: indexOf_def Let_def)
qed

lemma scanOccurrences_returns_nonempty:
  assumes "scanOccurrences t entity searchIndex processedEntities = Some r"
  shows "text_of entity \<noteq> []"
proof (rule scanOccurrences.raw_induct
    [where P = "\<lambda>t entity searchIndex processedEntities r. text_of entity \<noteq> []", OF _ assms])
  fix scan t entity searchIndex processedEntities r
  assume ih: "\<And>t entity searchIndex processedEntities r.
      scan t entity searchIndex processedEntities = Some r \<Longrightarrow> text_of entity \<noteq> []"
    and step: "(let foundIndex = indexOf t (text_of entity) searchIndex
      in if foundIndex \<noteq> - 1 then
           scan t entity (foundIndex + 1)
             (if \<not> isOverlap foundIndex (int (length (text_of entity))) processedEntities
              then processedEntities @
                     [entity\<lparr>startIndex := Some foundIndex,
                             endIndex := Some (foundIndex + int (length (text_of entity)))\<rparr>]
              else processedEntities)
         else Some processedEntities) = Some r"
  show "text_of entity \<noteq> []"
  proof (cases "indexOf t (text_of entity) searchIndex = - 1")
    case True
    with indexOf_empty [of t searchIndex] show ?thesis by auto
  next
    case False
    with step show ?thesis
      by (auto simp: Let_def dest: ih)
  qed
qed


lemma overlaps_sym: "overlaps a b \<Longrightarrow> overlaps b a"
  by (auto simp: overlaps_def)

lemma sorted_wrt_insort_key_sym:
  assumes sym: "\<And>a b. R a b \<Longrightarrow> R b a"
  shows "sorted_wrt R (insort_key f x xs) \<longleftrightarrow> (\<forall>y \<in> set xs. R x y) \<and> sorted_wrt R xs"
  by (induction xs) (auto simp: set_insort_key dest: sym)

lemma sorted_wrt_sort_key_sym:
  assumes sym: "\<And>a b. R a b \<Longrightarrow> R b a"
  shows "sorted_wrt R (sort_key f xs) \<longleftrightarrow> sorted_wrt R xs"
  by (induction xs) (simp_all add: sort_key_simps sorted_wrt_insort_key_sym [of R, OF sym])

lemma scan_step_inv:
  assumes ne: "text_of entity \<noteq> []"
    and found: "indexOf t (text_of entity) searchIndex \<noteq> - 1"
    and res: "\<forall>e \<in> set P. resolved t e"
    and srt: "sorted_wrt (\<lambda>a b. \<not> overlaps a b) P"
  defines "foundIndex \<equiv> indexOf t (text_of entity) searchIndex"
  defines "P' \<equiv> (if \<not> isOverlap foundIndex (int (length (text_of entity))) P
              then P @ [entity\<lparr>startIndex := Some foundIndex,
                             endIndex := Some (foundIndex + int (length (text_of entity)))\<rparr>]
              else P)"
  shows "(\<forall>e \<in> set P'. resolved t e) \<and> sorted_wrt (\<lambda>a b. \<not> overlaps a b) P'"
proof (cases "isOverlap foundIndex (int (length (text_of entity))) P")
  case True
  with res srt show ?thesis by (simp add: P'_def)
next
  case False
  let ?len = "length (text_of entity)"
  let ?new = "entity\<lparr>startIndex := Some foundIndex, endIndex := Some (foundIndex + int ?len)\<rparr>"
  from indexOf_found [OF found] obtain k where
    k: "foundIndex = int k" "k + ?len \<le> length t" "take ?len (drop k t) = text_of entity"
    unfolding foundIndex_def by blast
  from ne have len: "0 < ?len" by simp
  have new: "resolved t ?new"
    using k len by (simp add: resolved_def substring_def nat_add_distrib)
  have "\<not> overlaps x ?new" if "x \<in> set P" for x
  proof -
    from res that have "resolved t x" by blast
    then obtain s e where se: "startIndex x = Some s" "endIndex x = Some e"
      by (auto simp: resolved_def split: option.splits)
    from False that have "\<not> (startIndex x \<noteq> None \<and> endIndex x \<noteq> None \<and>
        foundIndex < the (endIndex x) \<and> foundIndex + int ?len > the (startIndex x))"
      by (auto simp: isOverlap_def list_ex_iff)
    with se show ?thesis
      by (auto simp: overlaps_def)
  qed
  with res srt new False show ?thesis
    by (simp add: P'_def sorted_wrt_append)
qed

lemma scanOccurrences_inv:
  assumes "scanOccurrences t entity searchIndex P = Some r"
  shows "text_of entity \<noteq> [] \<longrightarrow> (\<forall>e \<in> set P. resolved t e) \<longrightarrow>
         sorted_wrt (\<lambda>a b. \<not> overlaps a b) P \<longrightarrow>
         (\<forall>e \<in> set r. resolved t e) \<and> sorted_wrt (\<lambda>a b. \<not> overlaps a b) r"
proof (rule scanOccurrences.raw_induct
    [where P = "\<lambda>t entity searchIndex P r. text_of entity \<noteq> [] \<longrightarrow> (\<forall>e \<in> set P. resolved t e) \<longrightarrow>
         sorted_wrt (\<lambda>a b. \<not> overlaps a b) P \<longrightarrow>
         (\<forall>e \<in> set r. resolved t e) \<and> sorted_wrt (\<lambda>a b. \<not> overlaps a b) r", OF _ assms])
  fix scan t entity searchIndex P r
  assume ih: "\<And>t entity searchIndex P r.
      scan t entity searchIndex P = Some r \<Longrightarrow>
      text_of entity \<noteq> [] \<longrightarrow> (\<forall>e \<in> set P. resolved t e) \<longrightarrow>
         sorted_wrt (\<lambda>a b. \<not> overlaps a b) P \<longrightarrow>
         (\<forall>e \<in> set r. resolved t e) \<and> sorted_wrt (\<lambda>a b. \<not> overlaps a b) r"
    and step: "(let foundIndex = indexOf t (text_of entity) searchIndex
      in if foundIndex \<noteq> - 1 then
           scan t entity (foundIndex + 1)
             (if \<not> isOverlap foundIndex (int (length (text_of entity))) P
              then P @
                     [entity\<lparr>startIndex := Some foundIndex,
                             endIndex := Some (foundIndex + int (length (text_of entity)))\<rparr>]
              else P)
         else Some P) = Some r"
  show "text_of entity \<noteq> [] \<longrightarrow> (\<forall>e \<in> set P. resolved t e) \<longrightarrow>
         sorted_wrt (\<lambda>a b. \<not> overlaps a b) P \<longrightarrow>
         (\<forall>e \<in> set r. resolved t e) \<and> sorted_wrt (\<lambda>a b. \<not> overlaps a b) r"
  proof (intro impI)
    assume ne: "text_of entity \<noteq> []" and res: "\<forall>e \<in> set P. resolved t e"
      and srt: "sorted_wrt (\<lambda>a b. \<not> overlaps a b) P"
    show "(\<forall>e \<in> set r. resolved t e) \<and> sorted_wrt (\<lambda>a b. \<not> overlaps a b) r"
    proof (cases "indexOf t (text_of entity) searchIndex = - 1")
      case True
      with step res srt show ?thesis by (simp add: Let_def)
    next
      case False
      let ?f = "indexOf t (text_of entity) searchIndex"
      let ?P' = "(if \<not> isOverlap ?f (int (length (text_of entity))) P
              then P @ [entity\<lparr>startIndex := Some ?f,
                             endIndex := Some (?f + int (length (text_of entity)))\<rparr>]
              else P)"
      from step False have "scan t entity (?f + 1) ?P' = Some r"
        by (simp add: Let_def)
      from ih [OF this] ne scan_step_inv [OF ne False res srt] show ?thesis
        by blast
    qed
  qed
qed

lemma forEachEntity_inv:
  "forEachEntity t mode es (cur, P) = Some (cur', P') \<Longrightarrow>
   (\<forall>e \<in> set P. resolved t e) \<Longrightarrow> sorted_wrt (\<lambda>a b. \<not> overlaps a b) P \<Longrightarrow>
   (\<forall>e \<in> set P'. resolved t e) \<and> sorted_wrt (\<lambda>a b. \<not> overlaps a b) P'"
proof (induction es arbitrary: cur P)
  case Nil
  then show ?case by simp
next
  case (Cons entity es)
  from Cons.prems(1) obtain Q where
    q: "scanOccurrences t entity 0 P = Some Q"
    by (auto split: option.splits)
  with Cons.prems(1) obtain cur2 where
    rest: "forEachEntity t mode es (cur2, Q) = Some (cur', P')"
    by (auto simp: Let_def)
  from scanOccurrences_returns_nonempty [OF q] scanOccurrences_inv [OF q] Cons.prems(2,3)
  have "(\<forall>e \<in> set Q. resolved t e) \<and> sorted_wrt (\<lambda>a b. \<not> overlaps a b) Q"
    by blast
  with Cons.IH [OF rest] show ?case by blast
qed

lemma forEachEntity_returns_nonempty:
  "forEachEntity t mode es st = Some st' \<Longrightarrow> \<forall>e \<in> set es. text_of e \<noteq> []"
proof (induction es arbitrary: st)
  case Nil
  then show ?case by simp
next
  case (Cons entity es)
  obtain cur P where st: "st = (cur, P)" by (cases st)
  from Cons.prems st obtain Q where
    q: "scanOccurrences t entity 0 P = Some Q"
    by (auto split: option.splits)
  with Cons.prems st obtain cur2 where
    rest: "forEachEntity t mode es (cur2, Q) = Some st'"
    by (auto simp: Let_def)
  from scanOccurrences_returns_nonempty [OF q] Cons.IH [OF rest] show ?case
    by simp
qed

lemma applyRedaction_resolved:
  assumes "applyRedaction t entities mode = Some r"
  shows "(\<forall>e \<in> set (entitiesWithIndices r). resolved t e)
         \<and> sorted_wrt (\<lambda>a b. \<not> overlaps a b) (entitiesWithIndices r)"
proof -
  let ?sorted = "sort_key (\<lambda>e. - int (length (text_of e))) entities"
  from assms obtain cur P where
    f: "forEachEntity t mode ?sorted (t, []) = Some (cur, P)"
    and r: "entitiesWithIndices r = sort_key (\<lambda>e. case startIndex e of None \<Rightarrow> 0 | Some i \<Rightarrow> i) P"
    by (auto simp: applyRedaction_def Let_def split: option.splits)
  from forEachEntity_inv [OF f] have "(\<forall>e \<in> set P. resolved t e) \<and> sorted_wrt (\<lambda>a b. \<not> overlaps a b) P"
    by simp
  then show ?thesis
    unfolding r using overlaps_sym
    by (subst sorted_wrt_sort_key_sym) auto
qed

lemma applyRedaction_returns_nonempty:
  assumes "applyRedaction t entities mode = Some r"
  shows "\<forall>e \<in> set entities. text_of e \<noteq> []"
proof -
  let ?sorted = "sort_key (\<lambda>e. - int (length (text_of e))) entities"
  from assms obtain st where "forEachEntity t mode ?sorted (t, []) = Some st"
    by (auto simp: applyRedaction_def Let_def split: option.splits)
  from forEachEntity_returns_nonempty [OF this] show ?thesis
    by simp
qed

lemma scanOccurrences_returns:
  assumes ne: "text_of entity \<noteq> []"
  shows "\<exists>r. scanOccurrences t entity searchIndex P = Some r"
proof (induction "length t + 1 - nat (min (max searchIndex 0) (int (length t)))"
    arbitrary: searchIndex P rule: less_induct)
  case less
  show ?case
  proof (cases "indexOf t (text_of entity) searchIndex = - 1")
    case True
    then show ?thesis
      by (subst scanOccurrences.simps) (simp add: Let_def)
  next
    case False
    from indexOf_found [OF False] obtain k where
      k: "indexOf t (text_of entity) searchIndex = int k"
         "nat (min (max searchIndex 0) (int (length t))) \<le> k"
         "k + length (text_of entity) \<le> length t"
      by blast
    from ne have "1 \<le> length (text_of entity)"
      by (cases "text_of entity") simp_all
    with k(3) have kl: "k < length t" by linarith
    then have "nat (min (max (int k + 1) 0) (int (length t))) = k + 1"
      by (simp add: min_def max_def)
    with k(2) kl have "length t + 1 - nat (min (max (int k + 1) 0) (int (length t)))
        < length t + 1 - nat (min (max searchIndex 0) (int (length t)))"
      by arith
    from less [OF this] False k(1) show ?thesis
      by (subst scanOccurrences.simps) (simp add: Let_def)
  qed
qed

lemma forEachEntity_returns:
  "\<forall>e \<in> set es. text_of e \<noteq> [] \<Longrightarrow> \<exists>st'. forEachEntity t mode es st = Some st'"
proof (induction es arbitrary: st)
  case Nil
  then show ?case by simp
next
  case (Cons entity es)
  obtain cur P where st: "st = (cur, P)" by (cases st)
  from Cons.prems have "text_of entity \<noteq> []" by simp
  from scanOccurrences_returns [OF this] obtain Q where
    "scanOccurrences t entity 0 P = Some Q" by blast
  with Cons.IH Cons.prems st show ?case
    by (simp add: Let_def)
qed

lemma applyRedaction_returns:
  assumes "\<forall>e \<in> set entities. text_of e \<noteq> []"
  shows "\<exists>r. applyRedaction t entities mode = Some r"
proof -
  let ?sorted = "sort_key (\<lambda>e. - int (length (text_of e))) entities"
  from assms have "\<forall>e \<in> set ?sorted. text_of e \<noteq> []" by simp
  from forEachEntity_returns [OF this] obtain st where
    "forEachEntity t mode ?sorted (t, []) = Some st" by blast
  then show ?thesis
    by (cases st) (simp add: applyRedaction_def Let_def)
qed


text \<open>
  Claim C1. Whenever \<open>applyRedaction(text, entities, mode)\<close> returns, every entity of
  the returned list has both indices set with
  \<open>0 \<le> startIndex < endIndex \<le> length(text)\<close>, its text is the original text from
  \<open>startIndex\<close> to \<open>endIndex\<close>, and no two entities at different positions of the
  list have overlapping ranges.
\<close>

theorem applyRedaction_resolved_ranges:
  assumes "applyRedaction text entities mode = Some r"
  shows "(\<forall>e \<in> set (entitiesWithIndices r).
            \<exists>s t. startIndex e = Some s \<and> endIndex e = Some t
              \<and> 0 \<le> s \<and> s < t \<and> t \<le> int (length text)
              \<and> text_of e = substring text (nat s) (nat t))
         \<and> (\<forall>i < length (entitiesWithIndices r). \<forall>j < length (entitiesWithIndices r).
              i \<noteq> j \<longrightarrow> \<not> overlaps (entitiesWithIndices r ! i) (entitiesWithIndices r ! j))"
proof -
  note inv = applyRedaction_resolved [OF assms]
  have 1: "\<exists>s t. startIndex e = Some s \<and> endIndex e = Some t
              \<and> 0 \<le> s \<and> s < t \<and> t \<le> int (length text)
              \<and> text_of e = substring text (nat s) (nat t)"
    if "e \<in> set (entitiesWithIndices r)" for e
  proof -
    from inv that have "resolved text e" by blast
    then show ?thesis
      by (auto simp: resolved_def split: option.splits)
  qed
  have lt: "\<not> overlaps (entitiesWithIndices r ! i) (entitiesWithIndices r ! j)"
    if "i < j" "j < length (entitiesWithIndices r)" for i j
    using inv that by (simp add: sorted_wrt_iff_nth_less)
  have 2: "\<not> overlaps (entitiesWithIndices r ! i) (entitiesWithIndices r ! j)"
    if "i < length (entitiesWithIndices r)" "j < length (entitiesWithIndices r)" "i \<noteq> j" for i j
  proof (cases "i < j")
    case True
    with that lt show ?thesis by blast
  next
    case False
    with that have "j < i" by simp
    from lt [OF this that(1)] overlaps_sym show ?thesis by blast
  qed
  from 1 2 show ?thesis by blast
qed

theorem applyRedaction_resolved_ranges_witness:
  "\<exists>r. applyRedaction (js ''ab a'')
          [\<lparr>text_of = js ''a'', type_of = PERSON, startIndex = None, endIndex = None\<rparr>] MASK = Some r
     \<and> entitiesWithIndices r
         = [\<lparr>text_of = js ''a'', type_of = PERSON, startIndex = Some 0, endIndex = Some 1\<rparr>,
            \<lparr>text_of = js ''a'', type_of = PERSON, startIndex = Some 3, endIndex = Some 4\<rparr>]
     \<and> (\<forall>e \<in> set (entitiesWithIndices r).
            \<exists>s t. startIndex e = Some s \<and> endIndex e = Some t
              \<and> 0 \<le> s \<and> s < t \<and> t \<le> int (length (js ''ab a''))
              \<and> text_of e = substring (js ''ab a'') (nat s) (nat t))
     \<and> \<not> overlaps (entitiesWithIndices r ! 0) (entitiesWithIndices r ! 1)"
proof -
  let ?r = "\<lparr>redactedText = js ''[PERSON]b [PERSON]'',
             entitiesWithIndices =
               [\<lparr>text_of = js ''a'', type_of = PERSON, startIndex = Some 0, endIndex = Some 1\<rparr>,
                \<lparr>text_of = js ''a'', type_of = PERSON, startIndex = Some 3, endIndex = Some 4\<rparr>]\<rparr>"
  have ev: "applyRedaction (js ''ab a'')
          [\<lparr>text_of = js ''a'', type_of = PERSON, startIndex = None, endIndex = None\<rparr>] MASK
        = Some ?r"
    by code_simp
  from applyRedaction_resolved_ranges [OF ev] have
    a: "\<forall>e \<in> set (entitiesWithIndices ?r).
            \<exists>s t. startIndex e = Some s \<and> endIndex e = Some t
              \<and> 0 \<le> s \<and> s < t \<and> t \<le> int (length (js ''ab a''))
              \<and> text_of e = substring (js ''ab a'') (nat s) (nat t)"
    and b: "\<forall>i < length (entitiesWithIndices ?r). \<forall>j < length (entitiesWithIndices ?r).
              i \<noteq> j \<longrightarrow> \<not> overlaps (entitiesWithIndices ?r ! i) (entitiesWithIndices ?r ! j)"
    by blast+
  from b [rule_format, of 0 1] have c: "\<not> overlaps (entitiesWithIndices ?r ! 0) (entitiesWithIndices ?r ! 1)"
    by simp
  show ?thesis
  proof (rule exI [of _ ?r], intro conjI)
    show "entitiesWithIndices ?r
         = [\<lparr>text_of = js ''a'', type_of = PERSON, startIndex = Some 0, endIndex = Some 1\<rparr>,
            \<lparr>text_of = js ''a'', type_of = PERSON, startIndex = Some 3, endIndex = Some 4\<rparr>]"
      by simp
  qed (rule ev a c)+
qed

text \<open>
  Claim C3, at an input where the code does not do what the claim says. An entity whose
  text is the empty string is found by \<open>indexOf\<close> at every index, which never returns
  \<open>-1\<close>: the loop over the occurrences does not end and \<open>applyRedaction\<close> does not
  return. (With no empty text among the entities it returns: \<open>applyRedaction_returns\<close>.)
\<close>

theorem applyRedaction_empty_text_never_returns:
  "applyRedaction (js ''a'')
     [\<lparr>text_of = [], type_of = PERSON, startIndex = None, endIndex = None\<rparr>] MASK = None"
proof (rule ccontr)
  assume "applyRedaction (js ''a'')
     [\<lparr>text_of = [], type_of = PERSON, startIndex = None, endIndex = None\<rparr>] MASK \<noteq> None"
  then obtain r where "applyRedaction (js ''a'')
     [\<lparr>text_of = [], type_of = PERSON, startIndex = None, endIndex = None\<rparr>] MASK = Some r"
    by blast
  from applyRedaction_returns_nonempty [OF this] show False
    by simp
qed

text \<open>
  Claim C9. In \<open>REMOVE\<close> mode, \<open>"IP: 10.0.0.1 end"\<close> with the one entity
  \<open>10.0.0.1\<close> of type \<open>IP_ADDRESS\<close> gives the redacted text \<open>"IP: end"\<close>, with one
  space and trimmed, which is not \<open>"IP:  end"\<close>.
\<close>

theorem applyRedaction_remove_ip:
  "applyRedaction (js ''IP: 10.0.0.1 end'')
     [\<lparr>text_of = js ''10.0.0.1'', type_of = IP_ADDRESS, startIndex = None, endIndex = None\<rparr>] REMOVE
   = Some \<lparr>redactedText = js ''IP: end'',
           entitiesWithIndices =
             [\<lparr>text_of = js ''10.0.0.1'', type_of = IP_ADDRESS,
               startIndex = Some 4, endIndex = Some 12\<rparr>]\<rparr>
   \<and> js ''IP: end'' \<noteq> js ''IP:  end''"
proof
  show "applyRedaction (js ''IP: 10.0.0.1 end'')
     [\<lparr>text_of = js ''10.0.0.1'', type_of = IP_ADDRESS, startIndex = None, endIndex = None\<rparr>] REMOVE
   = Some \<lparr>redactedText = js ''IP: end'',
           entitiesWithIndices =
             [\<lparr>text_of = js ''10.0.0.1'', type_of = IP_ADDRESS,
               startIndex = Some 4, endIndex = Some 12\<rparr>]\<rparr>"
    by code_simp
  show "js ''IP: end'' \<noteq> js ''IP:  end''"
    by (simp add: js_def)
qed


section \<open>Properties of detectRegexEntities\<close>

lemma ends_bounds:
  "i \<le> length s \<Longrightarrow> e \<in> set (ends r s i) \<Longrightarrow> i + minlen r \<le> e \<and> e \<le> length s"
proof (induction r arbitrary: i e)
  case (Class C)
  then show ?case by (auto split: if_splits)
next
  case (Repeat C lo hi)
  have "length (takeWhile C (drop i s)) \<le> length s - i"
    by (metis length_takeWhile_le length_drop)
  with Repeat show ?case
    by (auto simp: Let_def split: if_splits option.splits)
next
  case (Seq a b)
  from Seq.prems(2) obtain m where m: "m \<in> set (ends a s i)" "e \<in> set (ends b s m)"
    by auto
  from Seq.IH(1) [OF Seq.prems(1) m(1)] have 1: "i + minlen a \<le> m" "m \<le> length s"
    by simp_all
  from Seq.IH(2) [OF 1(2) m(2)] 1 show ?case
    by simp
next
  case (Alt a b)
  from Alt.prems(2) have "e \<in> set (ends a s i) \<or> e \<in> set (ends b s i)"
    by simp
  then show ?case
  proof
    assume "e \<in> set (ends a s i)"
    from Alt.IH(1) [OF Alt.prems(1) this] show ?thesis by (simp add: min_def)
  next
    assume "e \<in> set (ends b s i)"
    from Alt.IH(2) [OF Alt.prems(1) this] show ?thesis by (simp add: min_def)
  qed
next
  case (Opt a)
  from Opt.prems(2) have "e \<in> set (ends a s i) \<or> e = i"
    by auto
  then show ?case
  proof
    assume "e \<in> set (ends a s i)"
    from Opt.IH [OF Opt.prems(1) this] show ?thesis by simp
  next
    assume "e = i"
    with Opt.prems(1) show ?thesis by simp
  qed
next
  case WordBoundary
  then show ?case by (auto split: if_splits)
next
  case Empty
  then show ?case by simp
qed

lemma exec_Some:
  assumes "exec re s lastIndex = Some (k, e)"
  shows "lastIndex \<le> k \<and> k + minlen re \<le> e \<and> e \<le> length s"
proof -
  from assms have f: "find (\<lambda>k. ends re s k \<noteq> []) [lastIndex..<length s + 1] = Some k"
    and e: "e = hd (ends re s k)"
    by (auto simp: exec_def simp del: upt_Suc split: option.splits)
  from find_Some_D [OF f] have k: "ends re s k \<noteq> []" "lastIndex \<le> k" "k \<le> length s"
    by auto
  from k(1) e have "e \<in> set (ends re s k)" by simp
  from ends_bounds [OF k(3) this] k(2) show ?thesis by simp
qed

lemma execLoop_returns:
  assumes "0 < minlen re"
  shows "\<exists>r. execLoop re t body lastIndex entities = Some r"
proof (induction "length t + 1 - lastIndex" arbitrary: lastIndex entities rule: less_induct)
  case less
  show ?case
  proof (cases "exec re t lastIndex")
    case None
    then show ?thesis
      by (subst execLoop.simps) simp
  next
    case (Some ke)
    obtain k e where ke: "ke = (k, e)" by (cases ke)
    from exec_Some [of re t lastIndex k e] Some ke assms
    have "length t + 1 - e < length t + 1 - lastIndex"
      by auto
    from less [OF this] Some ke show ?thesis
      by (subst execLoop.simps) simp
  qed
qed

lemma execLoop_preserves:
  assumes "execLoop re t body lastIndex entities = Some r"
  shows "(\<forall>m es. (\<forall>x \<in> set es. Q x) \<longrightarrow> (\<forall>x \<in> set (body m es). Q x)) \<longrightarrow>
         (\<forall>x \<in> set entities. Q x) \<longrightarrow> (\<forall>x \<in> set r. Q x)"
proof (rule execLoop.raw_induct
    [where P = "\<lambda>re t body lastIndex entities r.
         (\<forall>m es. (\<forall>x \<in> set es. Q x) \<longrightarrow> (\<forall>x \<in> set (body m es). Q x)) \<longrightarrow>
         (\<forall>x \<in> set entities. Q x) \<longrightarrow> (\<forall>x \<in> set r. Q x)", OF _ assms])
  fix loop re t body lastIndex entities r
  assume ih: "\<And>re t body lastIndex entities r.
      loop re t body lastIndex entities = Some r \<Longrightarrow>
         (\<forall>m es. (\<forall>x \<in> set es. Q x) \<longrightarrow> (\<forall>x \<in> set (body m es). Q x)) \<longrightarrow>
         (\<forall>x \<in> set entities. Q x) \<longrightarrow> (\<forall>x \<in> set r. Q x)"
    and step: "(case exec re t lastIndex of
        None \<Rightarrow> Some entities
      | Some (k, e) \<Rightarrow> loop re t body e (body (substring t k e) entities)) = Some r"
  show "(\<forall>m es. (\<forall>x \<in> set es. Q x) \<longrightarrow> (\<forall>x \<in> set (body m es). Q x)) \<longrightarrow>
         (\<forall>x \<in> set entities. Q x) \<longrightarrow> (\<forall>x \<in> set r. Q x)"
  proof (intro impI)
    assume b: "\<forall>m es. (\<forall>x \<in> set es. Q x) \<longrightarrow> (\<forall>x \<in> set (body m es). Q x)"
      and q: "\<forall>x \<in> set entities. Q x"
    show "\<forall>x \<in> set r. Q x"
    proof (cases "exec re t lastIndex")
      case None
      with step q show ?thesis by simp
    next
      case (Some ke)
      obtain k e where ke: "ke = (k, e)" by (cases ke)
      from step Some ke have "loop re t body e (body (substring t k e) entities) = Some r"
        by simp
      from ih [OF this] b q show ?thesis
        by blast
    qed
  qed
qed

lemma minlen_patterns:
  "0 < minlen emailRegex" "0 < minlen ipRegex" "0 < minlen urlRegex" "0 < minlen ccRegex"
  "0 < minlen phoneRegex" "0 < minlen dateRegex" "0 < minlen timeRegex"
  by (simp_all add: emailRegex_def ipRegex_def urlRegex_def ccRegex_def phoneRegex_def
        dateRegex_def timeRegex_def seq_def chr_def lit_def numeral_3_eq_3)

lemma minlen_phoneRegex: "minlen phoneRegex = 10"
  by (simp add: phoneRegex_def seq_def chr_def)

lemma execLoop_invariant:
  assumes "execLoop re t body lastIndex entities = Some r"
    and "\<And>m es. \<forall>x \<in> set es. Q x \<Longrightarrow> \<forall>x \<in> set (body m es). Q x"
    and "\<forall>x \<in> set entities. Q x"
  shows "\<forall>x \<in> set r. Q x"
  using execLoop_preserves [OF assms(1), of Q] assms(2,3) by blast

text \<open>
  Claim C8. The detector returns for every text, and every \<open>PHONE_NUMBER\<close> entity it
  returns has a text of at least 10 code units: the body of the phone loop leaves the
  entities as they are for a match shorter than 10.
\<close>

theorem detectRegexEntities_phone_length:
  "(\<exists>entities. detectRegexEntities text = Some entities
      \<and> (\<forall>e \<in> set entities. type_of e = PHONE_NUMBER \<longrightarrow> 10 \<le> length (text_of e)))
   \<and> (length m < 10 \<longrightarrow> pushPhone m found = found)"
proof
  let ?Q = "\<lambda>x. type_of x = PHONE_NUMBER \<longrightarrow> 10 \<le> length (text_of x)"
  from execLoop_returns [OF minlen_patterns(1)]
  obtain e1 where 1: "execLoop emailRegex text (push EMAIL_ADDRESS) 0 [] = Some e1" ..
  from execLoop_returns [OF minlen_patterns(2)]
  obtain e2 where 2: "execLoop ipRegex text (push IP_ADDRESS) 0 e1 = Some e2" ..
  from execLoop_returns [OF minlen_patterns(3)]
  obtain e3 where 3: "execLoop urlRegex text (push URL) 0 e2 = Some e3" ..
  from execLoop_returns [OF minlen_patterns(4)]
  obtain e4 where 4: "execLoop ccRegex text (push CREDIT_CARD) 0 e3 = Some e4" ..
  from execLoop_returns [OF minlen_patterns(5)]
  obtain e5 where 5: "execLoop phoneRegex text pushPhone 0 e4 = Some e5" ..
  from execLoop_returns [OF minlen_patterns(6)]
  obtain e6 where 6: "execLoop dateRegex text pushDate 0 e5 = Some e6" ..
  from execLoop_returns [OF minlen_patterns(7)]
  obtain e7 where 7: "execLoop timeRegex text (push DATE_TIME) 0 e6 = Some e7" ..
  have q1: "\<forall>x \<in> set e1. ?Q x"
    by (rule execLoop_invariant [OF 1]) (simp_all add: push_def)
  have q2: "\<forall>x \<in> set e2. ?Q x"
    by (rule execLoop_invariant [OF 2 _ q1]) (simp add: push_def)
  have q3: "\<forall>x \<in> set e3. ?Q x"
    by (rule execLoop_invariant [OF 3 _ q2]) (simp add: push_def)
  have q4: "\<forall>x \<in> set e4. ?Q x"
    by (rule execLoop_invariant [OF 4 _ q3]) (simp add: push_def)
  have q5: "\<forall>x \<in> set e5. ?Q x"
    by (rule execLoop_invariant [OF 5 _ q4]) (simp add: pushPhone_def push_def)
  have q6: "\<forall>x \<in> set e6. ?Q x"
    by (rule execLoop_invariant [OF 6 _ q5]) (simp add: pushDate_def push_def)
  have q7: "\<forall>x \<in> set e7. ?Q x"
    by (rule execLoop_invariant [OF 7 _ q6]) (simp add: push_def)
  have "detectRegexEntities text = Some e7"
    unfolding detectRegexEntities_def by (simp only: 1 2 3 4 5 6 7 Option.bind.simps)
  with q7 show "\<exists>entities. detectRegexEntities text = Some entities
      \<and> (\<forall>e \<in> set entities. type_of e = PHONE_NUMBER \<longrightarrow> 10 \<le> length (text_of e))"
    by blast
next
  show "length m < 10 \<longrightarrow> pushPhone m found = found"
    by (simp add: pushPhone_def)
qed


theorem detectRegexEntities_phone_length_witness:
  "detectRegexEntities (js ''call 212-555-0199 or 555-0199'')
     = Some [\<lparr>text_of = js ''212-555-0199'', type_of = PHONE_NUMBER,
              startIndex = None, endIndex = None\<rparr>]
   \<and> 10 \<le> length (js ''212-555-0199'')
   \<and> length (js ''555-0199'') < 10
   \<and> pushPhone (js ''555-0199'') [] = []"
proof -
  have ev: "detectRegexEntities (js ''call 212-555-0199 or 555-0199'')
     = Some [\<lparr>text_of = js ''212-555-0199'', type_of = PHONE_NUMBER,
              startIndex = None, endIndex = None\<rparr>]"
    by code_simp
  have short: "length (js ''555-0199'') < 10"
    by (simp add: js_def)
  from detectRegexEntities_phone_length [of "js ''call 212-555-0199 or 555-0199''" "js ''555-0199''" "[]"]
    ev short
  show ?thesis
    by simp
qed


section \<open>Properties of mergeEntities\<close>

lemma mergeEntities_fold:
  "fold (\<lambda>re merged. if text_of re \<notin> T then merged @ [re] else merged) B acc
     = acc @ filter (\<lambda>re. text_of re \<notin> T) B"
  by (induction B arbitrary: acc) simp_all

lemma mergeEntities_eq:
  "mergeEntities A B = A @ filter (\<lambda>re. text_of re \<notin> text_of ` set A) B"
  by (simp add: mergeEntities_def mergeEntities_fold)


text \<open>
  Claim C4. For all entity lists \<open>A\<close> (primary) and \<open>B\<close> (secondary), the merge is
  \<open>A\<close>, unchanged and in order, followed by exactly the entities of \<open>B\<close> whose text is
  not equal (code unit by code unit) to the text of any entity of \<open>A\<close>, in order. So
  every element of \<open>A\<close> is in the result, the first \<open>length A\<close> elements are \<open>A\<close>,
  and every later element has a text that no entity of \<open>A\<close> has.
\<close>

theorem mergeEntities_primary_then_unmatched_secondary:
  "mergeEntities A B = A @ filter (\<lambda>re. text_of re \<notin> text_of ` set A) B
   \<and> (\<forall>a \<in> set A. a \<in> set (mergeEntities A B))
   \<and> take (length A) (mergeEntities A B) = A
   \<and> (\<forall>x \<in> set (drop (length A) (mergeEntities A B)). text_of x \<notin> text_of ` set A)"
  by (simp add: mergeEntities_eq)

theorem mergeEntities_primary_then_unmatched_secondary_witness:
  "mergeEntities
     [\<lparr>text_of = js ''Ann'', type_of = PERSON, startIndex = None, endIndex = None\<rparr>]
     [\<lparr>text_of = js ''Ann'', type_of = LOCATION, startIndex = None, endIndex = None\<rparr>,
      \<lparr>text_of = js ''ann'', type_of = PERSON, startIndex = None, endIndex = None\<rparr>]
   = [\<lparr>text_of = js ''Ann'', type_of = PERSON, startIndex = None, endIndex = None\<rparr>,
      \<lparr>text_of = js ''ann'', type_of = PERSON, startIndex = None, endIndex = None\<rparr>]
   \<and> set (drop 1 (mergeEntities
     [\<lparr>text_of = js ''Ann'', type_of = PERSON, startIndex = None, endIndex = None\<rparr>]
     [\<lparr>text_of = js ''Ann'', type_of = LOCATION, startIndex = None, endIndex = None\<rparr>,
      \<lparr>text_of = js ''ann'', type_of = PERSON, startIndex = None, endIndex = None\<rparr>]))
     = {\<lparr>text_of = js ''ann'', type_of = PERSON, startIndex = None, endIndex = None\<rparr>}"
  using mergeEntities_primary_then_unmatched_secondary
    [of "[\<lparr>text_of = js ''Ann'', type_of = PERSON, startIndex = None, endIndex = None\<rparr>]"
        "[\<lparr>text_of = js ''Ann'', type_of = LOCATION, startIndex = None, endIndex = None\<rparr>,
          \<lparr>text_of = js ''ann'', type_of = PERSON, startIndex = None, endIndex = None\<rparr>]"]
  by (simp add: js_def)

text \<open>
  Claim C10. Secondary entities are compared with the texts of the primary list only,
  never with each other: whether an entity is appended does not depend on the secondary
  entities before it, and for a text \<open>t\<close> that no primary entity has, the entities of
  text \<open>t\<close> in the result are those of the secondary list, every copy of them, in order.
\<close>

theorem mergeEntities_keeps_secondary_duplicates:
  "(text_of re \<notin> text_of ` set A \<longrightarrow> mergeEntities A (B @ [re]) = mergeEntities A B @ [re])
   \<and> (t \<notin> text_of ` set A \<longrightarrow>
        filter (\<lambda>e. text_of e = t) (mergeEntities A B) = filter (\<lambda>e. text_of e = t) B)"
proof -
  have "filter (\<lambda>e. text_of e = t) A = []" if "t \<notin> text_of ` set A"
    using that by (auto simp: filter_empty_conv)
  moreover have "filter (\<lambda>e. text_of e = t) (filter (\<lambda>re. text_of re \<notin> text_of ` set A) B)
                   = filter (\<lambda>e. text_of e = t) B" if "t \<notin> text_of ` set A"
    using that by (auto intro: filter_cong)
  ultimately show ?thesis
    by (simp add: mergeEntities_eq)
qed

theorem mergeEntities_keeps_secondary_duplicates_witness:
  "mergeEntities
     [\<lparr>text_of = js ''Ann'', type_of = PERSON, startIndex = None, endIndex = None\<rparr>]
     [\<lparr>text_of = js ''10.0.0.1'', type_of = IP_ADDRESS, startIndex = None, endIndex = None\<rparr>,
      \<lparr>text_of = js ''10.0.0.1'', type_of = IP_ADDRESS, startIndex = None, endIndex = None\<rparr>]
   = [\<lparr>text_of = js ''Ann'', type_of = PERSON, startIndex = None, endIndex = None\<rparr>,
      \<lparr>text_of = js ''10.0.0.1'', type_of = IP_ADDRESS, startIndex = None, endIndex = None\<rparr>,
      \<lparr>text_of = js ''10.0.0.1'', type_of = IP_ADDRESS, startIndex = None, endIndex = None\<rparr>]
   \<and> filter (\<lambda>e. text_of e = js ''10.0.0.1'')
       (mergeEntities
          [\<lparr>text_of = js ''Ann'', type_of = PERSON, startIndex = None, endIndex = None\<rparr>]
          [\<lparr>text_of = js ''10.0.0.1'', type_of = IP_ADDRESS, startIndex = None, endIndex = None\<rparr>,
           \<lparr>text_of = js ''10.0.0.1'', type_of = IP_ADDRESS, startIndex = None, endIndex = None\<rparr>])
     = [\<lparr>text_of = js ''10.0.0.1'', type_of = IP_ADDRESS, startIndex = None, endIndex = None\<rparr>,
        \<lparr>text_of = js ''10.0.0.1'', type_of = IP_ADDRESS, startIndex = None, endIndex = None\<rparr>]"
proof -
  let ?a = "\<lparr>text_of = js ''Ann'', type_of = PERSON, startIndex = None, endIndex = None\<rparr>"
  let ?b = "\<lparr>text_of = js ''10.0.0.1'', type_of = IP_ADDRESS, startIndex = None, endIndex = None\<rparr>"
  have n: "text_of ?b \<notin> text_of ` set [?a]" "js ''10.0.0.1'' \<notin> text_of ` set [?a]"
    by (simp_all add: js_def)
  have 1: "mergeEntities [?a] ([] @ [?b]) = mergeEntities [?a] [] @ [?b]"
    using mergeEntities_keeps_secondary_duplicates [of ?b "[?a]" "[]"] n(1) by blast
  have 2: "mergeEntities [?a] ([?b] @ [?b]) = mergeEntities [?a] [?b] @ [?b]"
    using mergeEntities_keeps_secondary_duplicates [of ?b "[?a]" "[?b]"] n(1) by blast
  have 3: "filter (\<lambda>e. text_of e = js ''10.0.0.1'') (mergeEntities [?a] [?b, ?b])
             = filter (\<lambda>e. text_of e = js ''10.0.0.1'') [?b, ?b]"
    using mergeEntities_keeps_secondary_duplicates [of ?b "[?a]" "[?b, ?b]" "js ''10.0.0.1''"] n(2)
    by blast
  have 0: "mergeEntities [?a] [] = [?a]"
    by (simp add: mergeEntities_def)
  from 0 1 2 have "mergeEntities [?a] [?b, ?b] = [?a, ?b, ?b]" by simp
  moreover from 3 have "filter (\<lambda>e. text_of e = js ''10.0.0.1'') (mergeEntities [?a] [?b, ?b]) = [?b, ?b]"
    by simp
  ultimately show ?thesis by blast
qed

end
